theory Spec2Isabelle
  imports Complex_Main "HOL-Library.Multiset"
begin

section \<open>Configuration constants of application.js\<close>

definition NUM_SYMBOLS :: nat where
  "NUM_SYMBOLS = 6"

definition NUM_FIELDS :: nat where
  "NUM_FIELDS = 4"

text \<open>
  The literals \<open>0.2\<close>, \<open>0.1\<close> and \<open>0.05\<close> denote double-precision numbers: the
  doubles nearest to them, which are \<open>3602879701896397\<close> divided by \<open>2^54\<close>, by
  \<open>2^55\<close> and by \<open>2^56\<close>. A comparison of two doubles is exact, so \<open>shouldDo\<close>
  below compares a draw with exactly these numbers.
\<close>

definition MUTATION_PROBABILITY :: real where
  "MUTATION_PROBABILITY = 3602879701896397 / 18014398509481984"

definition PERMUTATION_PROBABILITY :: real where
  "PERMUTATION_PROBABILITY = 3602879701896397 / 36028797018963968"

definition INVERSION_PROBABILITY :: real where
  "INVERSION_PROBABILITY = 3602879701896397 / 72057594037927936"

definition MAXGEN :: int where
  "MAXGEN = 250"

definition POPULATION_SIZE :: int where
  "POPULATION_SIZE = 150"

definition SET_SIZE :: nat where
  "SET_SIZE = 110"

definition FIT_A :: int where
  "FIT_A = 1"

definition FIT_B :: int where
  "FIT_B = 2"

section \<open>JavaScript values, arrays and strings\<close>

text \<open>
  A symbol is a one-character string; an array element that was never written and a
  read past the end of an array or string are \<open>undefined\<close>, here \<open>None\<close>.
  A code is an array of symbols. A string of symbols and the array obtained from it by
  \<open>split('')\<close> read alike under \<open>[i]\<close>, so both are arrays in the model.
\<close>

type_synonym jsym = "char option"

datatype js_error = TypeError

definition js_get :: "'a option list \<Rightarrow> nat \<Rightarrow> 'a option" where
  "js_get xs i = (if i < length xs then xs ! i else None)"

text \<open>An assignment past the end of an array extends it, the gap reading \<open>undefined\<close>.\<close>

definition js_set :: "'a option list \<Rightarrow> nat \<Rightarrow> 'a option \<Rightarrow> 'a option list" where
  "js_set xs i v =
     (if i < length xs then xs[i := v]
      else xs @ replicate (i - length xs) None @ [v])"

text \<open>\<open>xs.slice(b, e)\<close>: a negative index counts from the end, both are clamped.\<close>

definition js_slice :: "'a list \<Rightarrow> int \<Rightarrow> int \<Rightarrow> 'a list" where
  "js_slice xs b e =
     (let len = int (length xs);
          from = (if b < 0 then max (len + b) 0 else min b len);
          to = (if e < 0 then max (len + e) 0 else min e len)
      in take (nat (to - from)) (drop (nat from) xs))"

definition js_split :: "string \<Rightarrow> jsym list" where
  "js_split s = map Some s"

text \<open>\<open>xs.join('')\<close>: an \<open>undefined\<close> element contributes the empty string.\<close>

definition js_join :: "jsym list \<Rightarrow> string" where
  "js_join xs = concat (map (\<lambda>v. case v of None \<Rightarrow> [] | Some c \<Rightarrow> [c]) xs)"

definition SYMBOLS :: "jsym list" where
  "SYMBOLS = js_split ''ABCDEF''"

text \<open>Decimal rendering of a number, as \<open>join('')\<close> applies it to the entries of a response.\<close>

function nat_digits :: "nat \<Rightarrow> string" where
  "nat_digits n =
     (if n < 10 then [''0123456789'' ! n]
      else nat_digits (n div 10) @ [''0123456789'' ! (n mod 10)])"
  by pat_completeness auto
termination
  by (relation "measure (\<lambda>n. n)") auto

declare nat_digits.simps [simp del]

definition js_num_string :: "int \<Rightarrow> string" where
  "js_num_string k = (if k < 0 then CHR ''-'' # nat_digits (nat (- k)) else nat_digits (nat k))"

definition join_response :: "int \<times> int \<Rightarrow> string" where
  "join_response r = js_num_string (fst r) @ js_num_string (snd r)"

section \<open>The random source\<close>

text \<open>
  \<open>Math.random()\<close> returns a number in \<open>[0, 1)\<close>. The values that successive calls
  return are a parameter of the model: the sequence \<open>rng\<close>, read from index 0, each
  call returning the rest of the sequence.

  The products and sums of a draw with an integer are taken over the reals here. The
  code computes them in doubles and rounds each result, and a rounded result can reach
  the next integer: \<open>Math.floor(r * 2 + 1)\<close> is 3 for the largest draw
  \<open>r = 1 - 2^-53\<close>, where the reals give 2. For such a draw the code selects the position
  that the model selects for a slightly larger value. The theorems on generations hold
  for every sequence of values and for any position drawn, so they do not depend on this.
\<close>

type_synonym rng = "nat \<Rightarrow> real"

definition Math_random :: "rng \<Rightarrow> real \<times> rng" where
  "Math_random rng = (rng 0, \<lambda>k. rng (Suc k))"

definition shouldDo :: "real \<Rightarrow> rng \<Rightarrow> bool \<times> rng" where
  "shouldDo probability rng =
     (let (r, rng') = Math_random rng in (r \<le> probability, rng'))"

definition getCrossoverPoint :: "nat \<Rightarrow> rng \<Rightarrow> int \<times> rng" where
  "getCrossoverPoint len rng =
     (let (r, rng') = Math_random rng in (\<lfloor>r * (real len - 2) + 1\<rfloor>, rng'))"

section \<open>The functions of underscore.js that the program calls\<close>

text \<open>\<open>_.random(min, max)\<close>: \<open>min + Math.floor(Math.random() * (max - min + 1))\<close>.\<close>

definition us_random :: "int \<Rightarrow> int \<Rightarrow> rng \<Rightarrow> int \<times> rng" where
  "us_random mn mx rng =
     (let (r, rng') = Math_random rng in (mn + \<lfloor>r * real_of_int (mx - mn + 1)\<rfloor>, rng'))"

text \<open>\<open>_.sample(list)\<close>: the element at index \<open>_.random(list.length - 1)\<close>.\<close>

definition sample1 :: "'a option list \<Rightarrow> rng \<Rightarrow> 'a option \<times> rng" where
  "sample1 obj rng =
     (let (i, rng') = us_random 0 (int (length obj) - 1) rng
      in (if 0 \<le> i then js_get obj (nat i) else None, rng'))"

text \<open>
  \<open>_.sample(list, n)\<close>: a partial Fisher-Yates shuffle of a copy of the list; position
  \<open>index\<close> is exchanged with position \<open>_.random(index, last)\<close>, for \<open>index\<close> from 0
  to \<open>n - 1\<close>, where \<open>n\<close> is first clamped to \<open>[0, length]\<close>; the first \<open>n\<close> entries
  are returned. For a value of \<open>Math.random()\<close> in \<open>[0, 1)\<close> the drawn position lies
  between \<open>index\<close> and \<open>last\<close>; for any other value the model exchanges nothing.
\<close>

function sample_loop :: "'a list \<Rightarrow> nat \<Rightarrow> nat \<Rightarrow> rng \<Rightarrow> 'a list \<times> rng" where
  "sample_loop sample index n rng =
     (if index < n then
        (let (rand, rng') = us_random (int index) (int (length sample) - 1) rng;
             sample' = (if int index \<le> rand \<and> rand < int (length sample)
                        then sample[index := sample ! nat rand, nat rand := sample ! index]
                        else sample)
         in sample_loop sample' (index + 1) n rng')
      else (sample, rng))"
  by pat_completeness auto
termination
  by (relation "measure (\<lambda>(sample, index, n, rng). n - index)") auto

declare sample_loop.simps [simp del]

definition sample_n :: "'a list \<Rightarrow> int \<Rightarrow> rng \<Rightarrow> 'a list \<times> rng" where
  "sample_n obj n rng =
     (let n' = nat (max (min n (int (length obj))) 0);
          (sample, rng') = sample_loop obj 0 n' rng
      in (take n' sample, rng'))"

text \<open>\<open>_.without(array, value)\<close> and \<open>_.difference(array, others)\<close>.\<close>

definition without :: "'a list \<Rightarrow> 'a \<Rightarrow> 'a list" where
  "without array v = filter (\<lambda>e. e \<noteq> v) array"

definition difference :: "'a list \<Rightarrow> 'a list \<Rightarrow> 'a list" where
  "difference array others = filter (\<lambda>e. e \<notin> set others) array"

text \<open>\<open>_.uniq(array)\<close> keeps the first occurrence of each value, in order.\<close>

fun uniq_into :: "'a list \<Rightarrow> 'a list \<Rightarrow> 'a list" where
  "uniq_into result [] = result"
| "uniq_into result (v # vs) =
     (if v \<in> set result then uniq_into result vs else uniq_into (result @ [v]) vs)"

definition uniq :: "'a list \<Rightarrow> 'a list" where
  "uniq array = uniq_into [] array"

definition union_us :: "'a list \<Rightarrow> 'a list \<Rightarrow> 'a list" where
  "union_us a b = uniq (a @ b)"

section \<open>The scoring function \<open>testCode\<close>\<close>

function first_pass ::
  "'a option list \<Rightarrow> 'a option list \<Rightarrow> nat \<Rightarrow> int \<Rightarrow> nat list \<Rightarrow> int \<times> nat list" where
  "first_pass combination solution i a marked =
     (if i < NUM_FIELDS then
        (if js_get combination i = js_get solution i
         then first_pass combination solution (i + 1) (a + 1) (marked[i := 1])
         else first_pass combination solution (i + 1) a marked)
      else (a, marked))"
  by pat_completeness auto
termination
  by (relation "measure (\<lambda>(c, s, i, a, m). NUM_FIELDS - i)") auto

declare first_pass.simps [simp del]

text \<open>The inner loop over \<open>j\<close>; it stops at the first match (\<open>break\<close>).\<close>

function scan ::
  "'a option list \<Rightarrow> 'a option list \<Rightarrow> nat \<Rightarrow> nat \<Rightarrow> int \<Rightarrow> nat list \<Rightarrow> int \<times> nat list" where
  "scan combination solution i j b marked =
     (if j < NUM_FIELDS then
        (if i \<noteq> j \<and> 0 = marked ! j \<and> js_get combination i = js_get solution j
         then (b + 1, marked[j := 1])
         else scan combination solution i (j + 1) b marked)
      else (b, marked))"
  by pat_completeness auto
termination
  by (relation "measure (\<lambda>(c, s, i, j, b, m). NUM_FIELDS - j)") auto

declare scan.simps [simp del]

function second_pass ::
  "'a option list \<Rightarrow> 'a option list \<Rightarrow> nat \<Rightarrow> int \<Rightarrow> nat list \<Rightarrow> int" where
  "second_pass combination solution i b marked =
     (if i < NUM_FIELDS then
        (if js_get combination i \<noteq> js_get solution i
         then (let (b', marked') = scan combination solution i 0 b marked
               in second_pass combination solution (i + 1) b' marked')
         else second_pass combination solution (i + 1) b marked)
      else b)"
  by pat_completeness auto
termination
  by (relation "measure (\<lambda>(c, s, i, b, m). NUM_FIELDS - i)") auto

declare second_pass.simps [simp del]

definition testCode :: "'a option list \<Rightarrow> 'a option list \<Rightarrow> int \<times> int" where
  "testCode combination solution =
     (let (a, marked) = first_pass combination solution 0 0 [0, 0, 0, 0];
          b = second_pass combination solution 0 0 marked
      in (a, b))"

section \<open>Combination\<close>

record Combination =
  code :: "jsym list"
  fitness :: int
  eligible :: bool

text \<open>
  The constructor; a caller that passes a string is modelled as passing
  \<open>js_split\<close> of it (\<open>_.isString(code) ? code.split('') : code\<close>).
\<close>

definition Combination_new :: "jsym list \<Rightarrow> Combination" where
  "Combination_new c = \<lparr>code = c, fitness = 0, eligible = False\<rparr>"

definition crossover :: "Combination \<Rightarrow> Combination \<Rightarrow> rng \<Rightarrow> (Combination \<times> Combination) \<times> rng" where
  "crossover this other rng =
     (let (crossoverPoint, rng') = getCrossoverPoint (length (code this)) rng;
          firstChild = js_slice (code this) 0 crossoverPoint
                       @ js_slice (code other) crossoverPoint (int (length (code other)));
          secondChild = js_slice (code other) 0 crossoverPoint
                        @ js_slice (code this) crossoverPoint (int (length (code this)))
      in ((Combination_new firstChild, Combination_new secondChild), rng'))"

definition mutate :: "Combination \<Rightarrow> rng \<Rightarrow> Combination \<times> rng" where
  "mutate this rng =
     (let (r, rng1) = Math_random rng;
          position = nat \<lfloor>r * real NUM_FIELDS\<rfloor>;
          (newValue, rng2) = sample1 (without SYMBOLS (js_get (code this) position)) rng1
      in (this\<lparr>code := js_set (code this) position newValue\<rparr>, rng2))"

text \<open>
  \<open>permutate\<close> draws two positions with \<open>_.sample(_.range(NUM_FIELDS), 2)\<close> and
  exchanges the entries there: the old entry at the first position is read, the first
  position receives the entry of the second, then the second receives the old entry.
  The sample of a four-element array always has two entries.
\<close>

definition permutate :: "Combination \<Rightarrow> rng \<Rightarrow> Combination \<times> rng" where
  "permutate this rng =
     (let positions = [0..<NUM_FIELDS];
          (toPermute, rng') = sample_n positions 2 rng
      in (case toPermute of
            [p0, p1] \<Rightarrow>
              (let old0 = js_get (code this) p0;
                   c1 = js_set (code this) p0 (js_get (code this) p1);
                   c2 = js_set c1 p1 old0
               in (this\<lparr>code := c2\<rparr>, rng'))
          | _ \<Rightarrow> (this, rng')))"

definition inverse_code :: "Combination \<Rightarrow> Combination" where
  "inverse_code this = this\<lparr>code := rev (code this)\<rparr>"

definition getCodeString :: "Combination \<Rightarrow> string" where
  "getCodeString this = js_join (code this)"

text \<open>An entry of \<open>prevGuesses\<close>: \<open>{code: ..., x: ..., y: ...}\<close>.\<close>

record guess =
  guess_code :: "jsym list"
  guess_x :: int
  guess_y :: int

text \<open>
  The loop \<open>for (var i in prevGuesses)\<close> visits the indices in order; the accumulator
  is \<open>(xDifference, yDifference, slickValue)\<close>.
\<close>

function fitness_loop ::
  "jsym list \<Rightarrow> guess list \<Rightarrow> nat \<Rightarrow> int \<times> int \<times> int \<Rightarrow> int \<times> int \<times> int" where
  "fitness_loop c prevGuesses i acc =
     (if i < length prevGuesses then
        (let (xDifference, yDifference, slickValue) = acc;
             testResponse = testCode c (guess_code (prevGuesses ! i))
         in fitness_loop c prevGuesses (i + 1)
              (xDifference + \<bar>fst testResponse - guess_x (prevGuesses ! i)\<bar>,
               yDifference + \<bar>snd testResponse - guess_y (prevGuesses ! i)\<bar>,
               slickValue + int i))
      else acc)"
  by pat_completeness auto
termination
  by (relation "measure (\<lambda>(c, p, i, acc). length p - i)") auto

declare fitness_loop.simps [simp del]

definition calculateFitness :: "Combination \<Rightarrow> guess list \<Rightarrow> Combination" where
  "calculateFitness this prevGuesses =
     (let (xDifference, yDifference, slickValue) = fitness_loop (code this) prevGuesses 0 (0, 0, 0);
          this1 = (if xDifference = 0 \<and> yDifference = 0 then this\<lparr>eligible := True\<rparr> else this)
      in this1\<lparr>fitness := FIT_A * xDifference + yDifference
                              + FIT_B * int NUM_FIELDS * slickValue\<rparr>)"

section \<open>The code space\<close>

fun variations :: "jsym list \<Rightarrow> nat \<Rightarrow> jsym list \<Rightarrow> string list \<Rightarrow> string list" where
  "variations symbols 0 variation results = results @ [js_join variation]"
| "variations symbols (Suc depth) variation results =
     fold (\<lambda>sym res. variations symbols depth (variation @ [sym]) res) symbols results"

definition allCodes :: "string list" where
  "allCodes = variations SYMBOLS NUM_FIELDS [] []"

section \<open>Mastermind: the secret and its scoring entry point\<close>

record Mastermind =
  solution :: "jsym list"

function newGame_loop :: "jsym list \<Rightarrow> nat \<Rightarrow> rng \<Rightarrow> jsym list \<times> rng" where
  "newGame_loop sol i rng =
     (if i < NUM_FIELDS then
        (let (r, rng') = Math_random rng
         in newGame_loop (js_set sol i (js_get SYMBOLS (nat \<lfloor>r * real NUM_SYMBOLS\<rfloor>))) (i + 1) rng')
      else (sol, rng))"
  by pat_completeness auto
termination
  by (relation "measure (\<lambda>(sol, i, rng). NUM_FIELDS - i)") auto

declare newGame_loop.simps [simp del]

definition newGame :: "Mastermind \<Rightarrow> rng \<Rightarrow> Mastermind \<times> rng" where
  "newGame this rng =
     (let (sol, rng') = newGame_loop (solution this) 0 rng in (this\<lparr>solution := sol\<rparr>, rng'))"

definition Mastermind_new :: "rng \<Rightarrow> Mastermind \<times> rng" where
  "Mastermind_new rng = newGame \<lparr>solution = []\<rparr> rng"

definition testCombination :: "Mastermind \<Rightarrow> jsym list \<Rightarrow> int \<times> int" where
  "testCombination this combination = testCode combination (solution this)"

section \<open>Population\<close>

record Population =
  members :: "Combination list"
  pop_size :: int

definition Population_init :: "Population \<Rightarrow> rng \<Rightarrow> Population \<times> rng" where
  "Population_init this rng =
     (let (randomSample, rng') = sample_n allCodes (pop_size this) rng
      in (this\<lparr>members := map (\<lambda>c. Combination_new (js_split c)) randomSample\<rparr>, rng'))"

definition Population_new :: "int \<Rightarrow> rng \<Rightarrow> Population \<times> rng" where
  "Population_new n rng = Population_init \<lparr>members = [], pop_size = n\<rparr> rng"

text \<open>\<open>Array.prototype.sort\<close> with the comparator \<open>a.fitness - b.fitness\<close> (a stable sort).\<close>

definition Population_sort :: "Population \<Rightarrow> Population" where
  "Population_sort this = this\<lparr>members := sort_key fitness (members this)\<rparr>"

text \<open>
  The first loop of \<open>generation\<close>: every member is evaluated, and the code string of
  an eligible member is pushed onto \<open>eiSet\<close> unless \<open>indexOf\<close> finds it there.
\<close>

fun evaluate_members ::
  "guess list \<Rightarrow> Combination list \<Rightarrow> string list \<Rightarrow> Combination list \<times> string list" where
  "evaluate_members prevGuesses [] eiSet = ([], eiSet)"
| "evaluate_members prevGuesses (m # ms) eiSet =
     (let m' = calculateFitness m prevGuesses;
          eiSet' = (if eligible m'
                    then (let codeString = getCodeString m'
                          in if codeString \<notin> set eiSet then eiSet @ [getCodeString m'] else eiSet)
                    else eiSet);
          (ms', eiSet'') = evaluate_members prevGuesses ms eiSet'
      in (m' # ms', eiSet''))"

text \<open>The body of the loop over the two children: three independent draws.\<close>

definition apply_operators :: "Combination \<Rightarrow> rng \<Rightarrow> Combination \<times> rng" where
  "apply_operators child rng =
     (let (doMutate, rng1) = shouldDo MUTATION_PROBABILITY rng;
          (c1, rng2) = (if doMutate then mutate child rng1 else (child, rng1));
          (doPermutate, rng3) = shouldDo PERMUTATION_PROBABILITY rng2;
          (c2, rng4) = (if doPermutate then permutate c1 rng3 else (c1, rng3));
          (doInverse, rng5) = shouldDo INVERSION_PROBABILITY rng4;
          c3 = (if doInverse then inverse_code c2 else c2)
      in (c3, rng5))"

text \<open>Deduplication of the members by code string and refill from \<open>allCodes\<close>.\<close>

definition refill :: "Combination list \<Rightarrow> int \<Rightarrow> rng \<Rightarrow> Combination list \<times> rng" where
  "refill ms n rng =
     (let uniqueCodes = uniq (map (\<lambda>obj. js_join (code obj)) ms);
          (newMembers, rng') =
             sample_n (difference allCodes uniqueCodes) (n - int (length uniqueCodes)) rng;
          uniqueCodes' = union_us uniqueCodes newMembers
      in (map (\<lambda>e. Combination_new (js_split e)) uniqueCodes', rng'))"

text \<open>
  One call of \<open>generation\<close> either invokes the callback and returns (\<open>Halted\<close>), or
  runs one generation and schedules the next call with \<open>setTimeout\<close>
  (\<open>Scheduled\<close>, with the population, the eligible set, the remaining budget and the
  rest of the random source). With fewer than two members the crossover call fails with
  a \<open>TypeError\<close>.
\<close>

datatype gen_result = Halted | Scheduled Population "string list" int rng

definition generation_body ::
  "Population \<Rightarrow> guess list \<Rightarrow> string list \<Rightarrow> int \<Rightarrow> rng \<Rightarrow> js_error + gen_result" where
  "generation_body this prevGuesses eiSet maxGen rng =
     (let (ms, eiSet') = evaluate_members prevGuesses (members this) eiSet;
          this1 = Population_sort (this\<lparr>members := ms\<rparr>)
      in if length (members this1) < 2 then Inl TypeError
         else
           (let lastIndex = length (members this1) - 1;
                ((child0, child1), rng1) =
                   crossover (members this1 ! lastIndex) (members this1 ! (lastIndex - 1)) rng;
                (child0', rng2) = apply_operators child0 rng1;
                (child1', rng3) = apply_operators child1 rng2;
                spliced = child0' # child1' # drop 2 (members this1);
                (members', rng4) = refill spliced (pop_size this1) rng3
            in Inr (Scheduled (this1\<lparr>members := members'\<rparr>) eiSet' (maxGen - 1) rng4)))"

definition generation ::
  "Population \<Rightarrow> guess list \<Rightarrow> string list \<Rightarrow> int \<Rightarrow> rng \<Rightarrow> js_error + gen_result" where
  "generation this prevGuesses eiSet maxGen rng =
     (if maxGen \<le> 0 \<or> length eiSet = SET_SIZE then
        (if \<not> (length prevGuesses > 1 \<and> length eiSet < 1) then Inr Halted
         else generation_body this prevGuesses eiSet maxGen rng)
      else generation_body this prevGuesses eiSet maxGen rng)"

text \<open>
  The timer re-enters \<open>generation\<close> until it halts. Nothing bounds the number of
  re-entries, so the run takes fuel: \<open>None\<close> means that more calls than the fuel were
  scheduled.
\<close>

fun generation_run ::
  "nat \<Rightarrow> Population \<Rightarrow> guess list \<Rightarrow> string list \<Rightarrow> int \<Rightarrow> rng
     \<Rightarrow> (js_error + Population \<times> string list \<times> rng) option" where
  "generation_run 0 this prevGuesses eiSet maxGen rng = None"
| "generation_run (Suc fuel) this prevGuesses eiSet maxGen rng =
     (case generation this prevGuesses eiSet maxGen rng of
        Inl err \<Rightarrow> Some (Inl err)
      | Inr Halted \<Rightarrow> Some (Inr (this, eiSet, rng))
      | Inr (Scheduled this' eiSet' nextGen rng') \<Rightarrow>
          generation_run fuel this' prevGuesses eiSet' nextGen rng')"

section \<open>Choosing the next guess\<close>

text \<open>The loop over \<open>k\<close>: the responses are compared as joined strings; \<open>sum_acc\<close> is the variable \<open>sum\<close>.\<close>

fun splits_k :: "int \<times> int \<Rightarrow> string \<Rightarrow> string list \<Rightarrow> int \<Rightarrow> int" where
  "splits_k testResponse sj [] sum_acc = sum_acc"
| "splits_k testResponse sj (rk # remainingCodes) sum_acc =
     (let subResponse = testCode (js_split rk) (js_split sj)
      in splits_k testResponse sj remainingCodes
           (if join_response testResponse \<noteq> join_response subResponse then sum_acc + 1 else sum_acc))"

text \<open>The loop over \<open>j\<close>; the third argument is the part of \<open>searchSpace\<close> still to visit.\<close>

fun splits_j :: "string \<Rightarrow> string list \<Rightarrow> string list \<Rightarrow> int \<Rightarrow> int" where
  "splits_j ei searchSpace [] sum_acc = sum_acc"
| "splits_j ei searchSpace (sj # rest) sum_acc =
     (let testResponse = testCode (js_split ei) (js_split sj);
          remainingCodes = without searchSpace sj
      in splits_j ei searchSpace rest (splits_k testResponse sj remainingCodes sum_acc))"

text \<open>The loop over \<open>i\<close>; the second argument is the part of \<open>eligible\<close> still to visit.\<close>

fun choose_loop :: "string list \<Rightarrow> string list \<Rightarrow> int \<Rightarrow> string option \<Rightarrow> string option" where
  "choose_loop eligible_codes [] mx nextGuess = nextGuess"
| "choose_loop eligible_codes (ei # rest) mx nextGuess =
     (let searchSpace = without eligible_codes ei;
          sum_acc = splits_j ei searchSpace searchSpace 0
      in if sum_acc > mx then choose_loop eligible_codes rest sum_acc (Some ei)
         else choose_loop eligible_codes rest mx nextGuess)"

text \<open>\<open>eligible[0]\<close> of an empty array is \<open>undefined\<close>, and \<open>split\<close> on it a \<open>TypeError\<close>.\<close>

definition chooseNextGuess :: "string list \<Rightarrow> js_error + jsym list" where
  "chooseNextGuess eligible_codes =
     (case choose_loop eligible_codes eligible_codes 0
             (case eligible_codes of [] \<Rightarrow> None | e # _ \<Rightarrow> Some e) of
        None \<Rightarrow> Inl TypeError
      | Some nextGuess \<Rightarrow> Inr (js_split nextGuess))"

section \<open>Playing a round\<close>

record game_state =
  game :: Mastermind
  aiGuess :: "jsym list"
  population :: Population
  eligibleSet :: "string list"
  previousGuesses :: "guess list"

datatype play_result = Win | Lose | NextGuess

definition playNextGuess ::
  "nat \<Rightarrow> game_state \<Rightarrow> int \<Rightarrow> int \<Rightarrow> rng \<Rightarrow> (js_error + play_result \<times> game_state \<times> rng) option" where
  "playNextGuess fuel st blackNum whiteNum rng =
     (let st1 = st\<lparr>previousGuesses := previousGuesses st
                     @ [\<lparr>guess_code = aiGuess st, guess_x = blackNum, guess_y = whiteNum\<rparr>]\<rparr>
      in if blackNum = int NUM_FIELDS then Some (Inr (Win, st1, rng))
         else
           (let st2 = st1\<lparr>eligibleSet := []\<rparr>
            in case generation_run fuel (population st2) (previousGuesses st2) (eligibleSet st2)
                      MAXGEN rng of
                 None \<Rightarrow> None
               | Some (Inl err) \<Rightarrow> Some (Inl err)
               | Some (Inr (p, eiSet, rng')) \<Rightarrow>
                   (if length eiSet > 0 then
                      (case chooseNextGuess eiSet of
                         Inl err \<Rightarrow> Some (Inl err)
                       | Inr g \<Rightarrow>
                           Some (Inr (NextGuess,
                                      st2\<lparr>population := p, eligibleSet := eiSet, aiGuess := g\<rparr>,
                                      rng')))
                    else Some (Inr (Lose, st2\<lparr>population := p, eligibleSet := eiSet\<rparr>, rng')))))"

section \<open>Notions used in the statements and proofs\<close>

text \<open>
  The second pass of \<open>testCode\<close>, seen on lists: each symbol of the first list takes
  one equal symbol out of the second list, if there is one.
\<close>

fun matches :: "'a list \<Rightarrow> 'a list \<Rightarrow> nat" where
  "matches [] R = 0"
| "matches (x # G) R = (if x \<in> set R then Suc (matches G (remove1 x R)) else matches G R)"

text \<open>The symbols of the solution at the positions from \<open>j\<close> on that are not marked.\<close>

definition unmarked :: "'a option list \<Rightarrow> nat list \<Rightarrow> nat \<Rightarrow> 'a option list" where
  "unmarked sol marked j =
     map (js_get sol) (filter (\<lambda>k. marked ! k = 0) [j..<NUM_FIELDS])"

text \<open>The symbols of \<open>c\<close> at the positions where \<open>c\<close> and \<open>s\<close> differ, and the positions where they agree.\<close>

definition mismatched :: "'a option list \<Rightarrow> 'a option list \<Rightarrow> 'a option list" where
  "mismatched c s =
     map (js_get c) (filter (\<lambda>k. js_get c k \<noteq> js_get s k) [0..<NUM_FIELDS])"

definition agreeing :: "'a option list \<Rightarrow> 'a option list \<Rightarrow> nat list" where
  "agreeing c s = filter (\<lambda>k. js_get c k = js_get s k) [0..<NUM_FIELDS]"

text \<open>Whether a call of \<open>playNextGuess\<close> ended with the alert \<open>Win!\<close>.\<close>

fun round_won :: "(js_error + play_result \<times> game_state \<times> rng) option \<Rightarrow> bool" where
  "round_won (Some (Inr (Win, st, rng))) = True"
| "round_won other = False"

text \<open>Concrete inputs for the examples.\<close>

definition rng_half :: rng where
  "rng_half = (\<lambda>k. 1 / 2)"

definition state_abcd :: game_state where
  "state_abcd =
     \<lparr>game = \<lparr>solution = js_split ''ABCD''\<rparr>, aiGuess = js_split ''ABCD'',
      population = \<lparr>members = [], pop_size = POPULATION_SIZE\<rparr>,
      eligibleSet = [], previousGuesses = []\<rparr>"

definition record_aabb :: guess where
  "record_aabb = \<lparr>guess_code = js_split ''AABB'', guess_x = 1, guess_y = 1\<rparr>"

definition rng_c4 :: rng where
  "rng_c4 = (\<lambda>k. if k = 1 then 9 / 128 else 7 / 8)"

definition child_abcd :: Combination where
  "child_abcd = Combination_new (js_split ''ABCD'')"

text \<open>
  The split sum of a member \<open>g\<close> of the eligible set \<open>E\<close>, in the words of the
  specification: with \<open>S\<close> the set without \<open>g\<close>, the number of pairs of a reference
  \<open>r\<close> in \<open>S\<close> and another member \<open>k\<close> of \<open>S\<close> whose score against \<open>r\<close> differs
  from the score of \<open>g\<close> against \<open>r\<close>.
\<close>

definition split_sum :: "string list \<Rightarrow> string \<Rightarrow> int" where
  "split_sum E g =
     (let S = without E g
      in sum_list (map (\<lambda>r. int (length (filter
             (\<lambda>k. testCode (js_split k) (js_split r) \<noteq> testCode (js_split g) (js_split r))
             (without S r)))) S))"

definition eligible_four :: "string list" where
  "eligible_four = [''AABB'', ''ABCD'', ''CDEF'', ''AAAA'']"

text \<open>Projections of the result of a call of \<open>generation\<close>.\<close>

fun result_eiSet :: "js_error + gen_result \<Rightarrow> string list" where
  "result_eiSet (Inr (Scheduled this' eiSet' nextGen rng')) = eiSet'"
| "result_eiSet other = []"

fun result_members :: "js_error + gen_result \<Rightarrow> Combination list" where
  "result_members (Inr (Scheduled this' eiSet' nextGen rng')) = members this'"
| "result_members other = []"

fun is_Scheduled :: "js_error + gen_result \<Rightarrow> bool" where
  "is_Scheduled (Inr (Scheduled this' eiSet' nextGen rng')) = True"
| "is_Scheduled other = False"

text \<open>
  A first round: the guess \<open>AABB\<close> scored \<open>(0, 0)\<close>, and an initial population of
  150 distinct codes over \<open>C\<close>, \<open>D\<close>, \<open>E\<close> and \<open>F\<close>.
\<close>

definition history_aabb :: "guess list" where
  "history_aabb = [\<lparr>guess_code = js_split ''AABB'', guess_x = 0, guess_y = 0\<rparr>]"

definition pop_cdef :: Population where
  "pop_cdef =
     \<lparr>members = map (\<lambda>c. Combination_new (js_split c))
                   (take 150 (variations (js_split ''CDEF'') NUM_FIELDS [] [])),
      pop_size = POPULATION_SIZE\<rparr>"

text \<open>
  A population constructed with a size above the number of codes, \<open>new Population(1300)\<close>,
  and two members for the refill examples.
\<close>

definition pop_big :: Population where
  "pop_big = fst (Population_new 1300 rng_half)"

definition two_members :: "Combination list" where
  "two_members = [Combination_new (js_split ''AAAA''), Combination_new (js_split ''AAAB'')]"

text \<open>A random source whose values all lie in \<open>[0, 1)\<close>, as those of \<open>Math.random()\<close> do.\<close>

definition valid_rng :: "rng \<Rightarrow> bool" where
  "valid_rng rng = (\<forall>k. 0 \<le> rng k \<and> rng k < 1)"

text \<open>Further projections, and the first two calls of \<open>generation\<close> in the example round.\<close>

fun result_population :: "js_error + gen_result \<Rightarrow> Population" where
  "result_population (Inr (Scheduled this' eiSet' nextGen rng')) = this'"
| "result_population other = \<lparr>members = [], pop_size = 0\<rparr>"

fun result_rng :: "js_error + gen_result \<Rightarrow> rng" where
  "result_rng (Inr (Scheduled this' eiSet' nextGen rng')) = rng'"
| "result_rng other = (\<lambda>k. 0)"

definition first_step :: "js_error + gen_result" where
  "first_step = generation pop_cdef history_aabb [] MAXGEN rng_half"

definition second_step :: "js_error + gen_result" where
  "second_step =
     generation (result_population first_step) history_aabb (result_eiSet first_step)
       (MAXGEN - 1) (result_rng first_step)"

text \<open>
  The first and the third operator of the loop over the children, as the code applies
  them before and after the permutation: the test and the mutation, the test and the
  inversion.
\<close>

definition mutation_stage :: "Combination \<Rightarrow> rng \<Rightarrow> Combination \<times> rng" where
  "mutation_stage child rng =
     (let (doMutate, rng1) = shouldDo MUTATION_PROBABILITY rng
      in if doMutate then mutate child rng1 else (child, rng1))"

definition inversion_stage :: "Combination \<times> rng \<Rightarrow> Combination \<times> rng" where
  "inversion_stage cr =
     (let (doInverse, rng5) = shouldDo INVERSION_PROBABILITY (snd cr)
      in (if doInverse then inverse_code (fst cr) else fst cr, rng5))"

section \<open>What \<open>testCode\<close> computes\<close>

lemma matches_inter: "matches G R = size (mset G \<inter># mset R)"
  by (induction G arbitrary: R) (auto simp: inter_add_left1 inter_add_left2)

lemma first_pass_eq:
  "length marked = NUM_FIELDS \<Longrightarrow>
   first_pass c s i a marked =
     (a + int (length (filter (\<lambda>k. js_get c k = js_get s k) [i..<NUM_FIELDS])),
      map (\<lambda>k. if i \<le> k \<and> js_get c k = js_get s k then 1 else marked ! k) [0..<NUM_FIELDS])"
proof (induction c s i a marked rule: first_pass.induct)
  case (1 c s i a marked)
  show ?case
  proof (cases "i < NUM_FIELDS")
    case False
    have "map (\<lambda>k. marked ! k) [0..<NUM_FIELDS] = marked"
      using "1.prems" map_nth [of marked] by simp
    moreover have "map (\<lambda>k. if i \<le> k \<and> js_get c k = js_get s k then 1 else marked ! k) [0..<NUM_FIELDS]
       = map (\<lambda>k. marked ! k) [0..<NUM_FIELDS]"
      using False by (intro map_cong) auto
    ultimately show ?thesis
      using False by (subst first_pass.simps) simp
  next
    case True
    note lt = True
    have upt: "[i..<NUM_FIELDS] = i # [Suc i..<NUM_FIELDS]"
      using lt by (simp add: upt_conv_Cons)
    show ?thesis
    proof (cases "js_get c i = js_get s i")
      case True
      have len: "length (marked[i := 1]) = NUM_FIELDS"
        using "1.prems" by simp
      have m: "map (\<lambda>k. if Suc i \<le> k \<and> js_get c k = js_get s k then 1 else marked[i := 1] ! k) [0..<NUM_FIELDS]
         = map (\<lambda>k. if i \<le> k \<and> js_get c k = js_get s k then 1 else marked ! k) [0..<NUM_FIELDS]"
        using True lt "1.prems" by (intro map_cong) (auto simp: nth_list_update)
      show ?thesis
        using "1.IH"(1) [OF lt True len] True lt m
        by (subst first_pass.simps) (simp add: upt)
    next
      case False
      have m: "map (\<lambda>k. if Suc i \<le> k \<and> js_get c k = js_get s k then 1 else marked ! k) [0..<NUM_FIELDS]
         = map (\<lambda>k. if i \<le> k \<and> js_get c k = js_get s k then 1 else marked ! k) [0..<NUM_FIELDS]"
        using False by (intro map_cong) (auto simp: le_Suc_eq Suc_le_eq le_less)
      show ?thesis
        using "1.IH"(2) [OF lt False "1.prems"] False lt m
        by (subst first_pass.simps) (simp add: upt)
    qed
  qed
qed

lemma scan_props:
  assumes "length marked = NUM_FIELDS" and "js_get c i \<noteq> js_get s i"
  shows "length (snd (scan c s i j b marked)) = NUM_FIELDS \<and>
         (\<forall>k<j. snd (scan c s i j b marked) ! k = marked ! k) \<and>
         unmarked s (snd (scan c s i j b marked)) j = remove1 (js_get c i) (unmarked s marked j) \<and>
         fst (scan c s i j b marked) = b + (if js_get c i \<in> set (unmarked s marked j) then 1 else 0)"
  using assms
proof (induction c s i j b marked rule: scan.induct)
  case (1 c s i j b marked)
  show ?case
  proof (cases "j < NUM_FIELDS")
    case False
    then show ?thesis
      using "1.prems" by (subst (1 2 3 4) scan.simps) (simp add: unmarked_def)
  next
    case True
    note lt = True
    have upt: "[j..<NUM_FIELDS] = j # [Suc j..<NUM_FIELDS]"
      using lt by (simp add: upt_conv_Cons)
    show ?thesis
    proof (cases "i \<noteq> j \<and> 0 = marked ! j \<and> js_get c i = js_get s j")
      case True
      have f: "filter (\<lambda>k. marked[j := 1] ! k = 0) [Suc j..<NUM_FIELDS]
                 = filter (\<lambda>k. marked ! k = 0) [Suc j..<NUM_FIELDS]"
        by (intro filter_cong) auto
      have sc: "scan c s i j b marked = (b + 1, marked[j := 1])"
        using True lt by (subst scan.simps) simp
      show ?thesis
        unfolding sc using True lt "1.prems" f
        by (simp add: unmarked_def upt)
    next
      case False
      have sc: "scan c s i j b marked = scan c s i (j + 1) b marked"
        using False lt by (subst scan.simps) auto
      have nj: "\<not> (marked ! j = 0 \<and> js_get s j = js_get c i)"
        using False "1.prems"(2) by auto
      note IH = "1.IH" [OF lt False "1.prems"]
      have mj: "snd (scan c s i (j + 1) b marked) ! j = marked ! j"
        using IH by simp
      show ?thesis
        unfolding sc using IH nj mj
        by (auto simp: unmarked_def upt)
    qed
  qed
qed

lemma second_pass_eq:
  "length marked = NUM_FIELDS \<Longrightarrow>
   second_pass c s i b marked =
     b + int (matches (map (js_get c) (filter (\<lambda>k. js_get c k \<noteq> js_get s k) [i..<NUM_FIELDS]))
                      (unmarked s marked 0))"
proof (induction c s i b marked rule: second_pass.induct)
  case (1 c s i b marked)
  show ?case
  proof (cases "i < NUM_FIELDS")
    case False
    then show ?thesis
      by (subst second_pass.simps) simp
  next
    case True
    note lt = True
    have upt: "[i..<NUM_FIELDS] = i # [Suc i..<NUM_FIELDS]"
      using lt by (simp add: upt_conv_Cons)
    show ?thesis
    proof (cases "js_get c i \<noteq> js_get s i")
      case True
      obtain b' m' where sc: "scan c s i 0 b marked = (b', m')"
        by (cases "scan c s i 0 b marked")
      note P = scan_props [OF "1.prems" True, of 0 b, unfolded sc fst_conv snd_conv]
      have len: "length m' = NUM_FIELDS"
        using P by simp
      have IH: "second_pass c s (i + 1) b' m' =
          b' + int (matches (map (js_get c) (filter (\<lambda>k. js_get c k \<noteq> js_get s k) [i + 1..<NUM_FIELDS]))
                      (unmarked s m' 0))"
        using "1.IH"(1) [OF lt True sc [symmetric] refl len] .
      have sp: "second_pass c s i b marked = second_pass c s (i + 1) b' m'"
        using lt True sc by (subst second_pass.simps) simp
      show ?thesis
        unfolding sp IH using P True by (simp add: upt remove1_idem)
    next
      case False
      have sp: "second_pass c s i b marked = second_pass c s (i + 1) b marked"
        using lt False by (subst second_pass.simps) simp
      show ?thesis
        unfolding sp using "1.IH"(2) [OF lt False "1.prems"] False by (simp add: upt)
    qed
  qed
qed

lemma marked_init: "[0, 0, 0, 0] = replicate NUM_FIELDS (0::nat)"
  by (simp add: NUM_FIELDS_def eval_nat_numeral)

lemma testCode_eq:
  "testCode c s =
     (int (length (agreeing c s)), int (size (mset (mismatched c s) \<inter># mset (mismatched s c))))"
proof -
  let ?m = "map (\<lambda>k. if 0 \<le> k \<and> js_get c k = js_get s k then 1 else replicate NUM_FIELDS (0::nat) ! k) [0..<NUM_FIELDS]"
  have fp: "first_pass c s 0 0 [0, 0, 0, 0] = (int (length (agreeing c s)), ?m)"
    unfolding marked_init agreeing_def by (subst first_pass_eq) simp_all
  have len: "length ?m = NUM_FIELDS"
    by simp
  have "filter (\<lambda>k. ?m ! k = 0) [0..<NUM_FIELDS] = filter (\<lambda>k. js_get s k \<noteq> js_get c k) [0..<NUM_FIELDS]"
    by (rule filter_cong) auto
  then have um: "unmarked s ?m 0 = mismatched s c"
    unfolding unmarked_def mismatched_def by simp
  have sp: "second_pass c s 0 0 ?m = int (matches (mismatched c s) (mismatched s c))"
    unfolding second_pass_eq [OF len] um mismatched_def by simp
  show ?thesis
    unfolding testCode_def fp using sp by (simp only: Let_def prod.case matches_inter)
qed

lemma agreeing_sym: "agreeing a b = agreeing b a"
  unfolding agreeing_def by (rule filter_cong) auto

lemma testCode_sym: "testCode a b = testCode b a"
  unfolding testCode_eq [of a b] testCode_eq [of b a] agreeing_sym [of a b]
  by (simp add: subset_mset.inf_commute)

lemma length_mismatched: "length (agreeing a b) + length (mismatched a b) = NUM_FIELDS"
  unfolding agreeing_def mismatched_def
  using sum_length_filter_compl [of "\<lambda>k. js_get a k = js_get b k" "[0..<NUM_FIELDS]"] by simp

lemma testCode_bound:
  "0 \<le> fst (testCode a b) \<and> 0 \<le> snd (testCode a b) \<and>
   fst (testCode a b) + snd (testCode a b) \<le> int NUM_FIELDS"
proof -
  have "size (mset (mismatched a b) \<inter># mset (mismatched b a)) \<le> size (mset (mismatched a b))"
    by (rule size_mset_mono) simp
  then have "size (mset (mismatched a b) \<inter># mset (mismatched b a)) \<le> length (mismatched a b)"
    by (simp only: size_mset)
  then show ?thesis
    unfolding testCode_eq using length_mismatched [of a b] by simp
qed

lemma testCode_exact_all:
  "fst (testCode a b) = int NUM_FIELDS \<longleftrightarrow> (\<forall>k<NUM_FIELDS. js_get a k = js_get b k)"
proof -
  have "length (agreeing a b) = NUM_FIELDS \<longleftrightarrow> mismatched a b = []"
    using length_mismatched [of a b] by auto
  also have "\<dots> \<longleftrightarrow> (\<forall>k<NUM_FIELDS. js_get a k = js_get b k)"
    unfolding mismatched_def by (auto simp: filter_empty_conv)
  finally show ?thesis
    unfolding testCode_eq by simp
qed

lemma js_get_eq_iff:
  assumes "length a = n" and "length b = n"
  shows "(\<forall>k<n. js_get a k = js_get b k) \<longleftrightarrow> a = b"
  using assms by (auto simp: js_get_def list_eq_iff_nth_eq)

text \<open>
  Claim C1. The scoring function is symmetric: \<open>testCode(A, B)\<close> and \<open>testCode(B, A)\<close>
  return the same pair of exact and partial counts. This holds for all arrays, so in
  particular for codes of length \<open>NUM_FIELDS\<close> over the alphabet with repeated symbols.
\<close>

theorem testCode_symmetric: "testCode A B = testCode B A"
  by (rule testCode_sym)

text \<open>
  Claim C8. Both counts returned by \<open>testCode\<close> are non-negative and their sum is at
  most the code length \<open>NUM_FIELDS\<close>.
\<close>

theorem testCode_sum_bounded:
  "0 \<le> fst (testCode a b) \<and> 0 \<le> snd (testCode a b)
   \<and> fst (testCode a b) + snd (testCode a b) \<le> int NUM_FIELDS"
  by (rule testCode_bound)

section \<open>Fitness of the secret\<close>

lemma fitness_loop_consistent:
  assumes "\<forall>r \<in> set prev. (guess_x r, guess_y r) = testCode (guess_code r) c"
  shows "fst (fitness_loop c prev i (xd, yd, sl)) = xd \<and>
         fst (snd (fitness_loop c prev i (xd, yd, sl))) = yd"
proof (induction "length prev - i" arbitrary: i xd yd sl)
  case 0
  then show ?case
    by (subst (1 2) fitness_loop.simps) simp
next
  case (Suc d)
  then have lt: "i < length prev"
    by simp
  then have "(guess_x (prev ! i), guess_y (prev ! i)) = testCode (guess_code (prev ! i)) c"
    using assms by simp
  then have r: "testCode c (guess_code (prev ! i)) = (guess_x (prev ! i), guess_y (prev ! i))"
    by (simp add: testCode_sym [of c])
  have d: "d = length prev - (i + 1)"
    using Suc.hyps(2) by simp
  show ?case
    using lt Suc.hyps(1) [OF d, of xd yd "sl + int i"]
    by (subst (1 2) fitness_loop.simps) (simp add: r)
qed

text \<open>
  Claim C2. Let every record of a non-empty history store the feedback
  \<open>(x, y) = testCode(record.code, secret)\<close> for one secret. Then \<open>calculateFitness\<close>,
  called on a fresh Combination whose code is the secret, sets \<open>eligible\<close> to true.
\<close>

theorem secret_is_eligible:
  assumes "history \<noteq> []"
    and "\<forall>r \<in> set history. (guess_x r, guess_y r) = testCode (guess_code r) secret"
  shows "eligible (calculateFitness (Combination_new secret) history)"
proof -
  obtain xd yd sl where fl: "fitness_loop secret history 0 (0, 0, 0) = (xd, yd, sl)"
    by (cases "fitness_loop secret history 0 (0, 0, 0)")
  have "xd = 0 \<and> yd = 0"
    using fitness_loop_consistent [OF assms(2), of 0 0 0 0] unfolding fl by simp
  then show ?thesis
    unfolding calculateFitness_def by (simp add: Combination_new_def fl)
qed

theorem secret_is_eligible_witness:
  "[record_aabb] \<noteq> []
   \<and> (guess_x record_aabb, guess_y record_aabb)
       = testCode (guess_code record_aabb) (js_split ''ABCD'')
   \<and> eligible (calculateFitness (Combination_new (js_split ''ABCD'')) [record_aabb])"
proof -
  have t: "testCode (js_split ''AABB'') (js_split ''ABCD'') = (1, 1)"
    by code_simp
  have h1: "[record_aabb] \<noteq> []"
    by simp
  have h2: "\<forall>r \<in> set [record_aabb].
              (guess_x r, guess_y r) = testCode (guess_code r) (js_split ''ABCD'')"
    by (simp add: record_aabb_def t)
  show ?thesis
    using h2 secret_is_eligible [OF h1 h2] by simp
qed

section \<open>The win check\<close>

text \<open>
  Claim C10. For codes \<open>g\<close> and \<open>r\<close> of length \<open>NUM_FIELDS\<close>, the exact count of
  \<open>testCode(g, r)\<close> equals \<open>NUM_FIELDS\<close> if and only if \<open>g\<close> and \<open>r\<close> are equal
  position by position. So \<open>playNextGuess\<close>, given the exact count of the guess against
  the secret, reports a win exactly when the guess is the secret.
\<close>

theorem exact_count_full_iff_equal:
  assumes "length g = NUM_FIELDS" and "length r = NUM_FIELDS"
    and "aiGuess st = g" and "solution (game st) = r"
  shows "(fst (testCode g r) = int NUM_FIELDS \<longleftrightarrow> g = r)
     \<and> (round_won (playNextGuess fuel st (fst (testCombination (game st) (aiGuess st))) whiteNum rng)
          \<longleftrightarrow> g = r)"
proof -
  have a: "fst (testCode g r) = int NUM_FIELDS \<longleftrightarrow> g = r"
    unfolding testCode_exact_all using js_get_eq_iff [OF assms(1,2)] by simp
  have b: "round_won (playNextGuess fuel st blackNum whiteNum rng) \<longleftrightarrow> blackNum = int NUM_FIELDS"
    for blackNum
    unfolding playNextGuess_def
    by (auto simp: Let_def split: option.splits sum.splits prod.splits)
  show ?thesis
    using a unfolding b testCombination_def assms(3,4) by simp
qed

theorem exact_count_full_iff_equal_witness:
  "length (js_split ''ABCD'') = NUM_FIELDS \<and> aiGuess state_abcd = js_split ''ABCD''
   \<and> solution (game state_abcd) = js_split ''ABCD''
   \<and> fst (testCode (js_split ''ABCD'') (js_split ''ABCD'')) = int NUM_FIELDS
   \<and> round_won (playNextGuess 0 state_abcd
        (fst (testCombination (game state_abcd) (aiGuess state_abcd))) 0 rng_half)"
proof -
  have l: "length (js_split ''ABCD'') = NUM_FIELDS"
    by (simp add: js_split_def NUM_FIELDS_def)
  have g: "aiGuess state_abcd = js_split ''ABCD''"
    by (simp add: state_abcd_def)
  have s: "solution (game state_abcd) = js_split ''ABCD''"
    by (simp add: state_abcd_def)
  show ?thesis
    using l g s exact_count_full_iff_equal [OF l l g s, of 0 0 rng_half] by simp
qed

section \<open>The choice of the next guess\<close>

lemma nat_digits_small: "n < 10 \<Longrightarrow> nat_digits n = [''0123456789'' ! n]"
  by (subst nat_digits.simps) simp

lemma digit_inj:
  assumes "n < 10" and "m < 10"
  shows "''0123456789'' ! n = ''0123456789'' ! m \<longleftrightarrow> n = m"
proof -
  have "distinct ''0123456789''"
    by simp
  moreover have "length ''0123456789'' = 10"
    by simp
  ultimately show ?thesis
    using assms nth_eq_iff_index_eq [of "''0123456789''" n m] by simp
qed

lemma js_num_string_small: "0 \<le> k \<Longrightarrow> k < 10 \<Longrightarrow> js_num_string k = [''0123456789'' ! nat k]"
  unfolding js_num_string_def by (simp add: nat_digits_small)

lemma join_response_inj:
  assumes "0 \<le> fst p" "fst p < 10" "0 \<le> snd p" "snd p < 10"
    and "0 \<le> fst q" "fst q < 10" "0 \<le> snd q" "snd q < 10"
  shows "join_response p = join_response q \<longleftrightarrow> p = q"
proof -
  have "join_response p = join_response q \<longleftrightarrow> nat (fst p) = nat (fst q) \<and> nat (snd p) = nat (snd q)"
    unfolding join_response_def using assms
    by (simp add: js_num_string_small digit_inj del: nth_Cons_numeral)
  then show ?thesis
    using assms by (auto simp: prod_eq_iff)
qed

lemma testCode_small:
  "0 \<le> fst (testCode a b) \<and> fst (testCode a b) < 10 \<and> 0 \<le> snd (testCode a b) \<and> snd (testCode a b) < 10"
  using testCode_bound [of a b] by (simp add: NUM_FIELDS_def)

lemma join_response_testCode:
  "join_response (testCode a b) = join_response (testCode c d) \<longleftrightarrow> testCode a b = testCode c d"
  using testCode_small [of a b] testCode_small [of c d] by (intro join_response_inj) simp_all

lemma splits_k_eq:
  "splits_k (testCode a b) sj remaining acc =
     acc + int (length (filter (\<lambda>k. testCode (js_split k) (js_split sj) \<noteq> testCode a b) remaining))"
  by (induction remaining arbitrary: acc) (auto simp: Let_def join_response_testCode)

lemma splits_j_eq:
  "splits_j ei S rest acc =
     acc + sum_list (map (\<lambda>r. int (length (filter
             (\<lambda>k. testCode (js_split k) (js_split r) \<noteq> testCode (js_split ei) (js_split r))
             (without S r)))) rest)"
  by (induction rest arbitrary: acc) (simp_all add: Let_def splits_k_eq)

lemma splits_j_split_sum:
  "splits_j ei (without E ei) (without E ei) 0 = split_sum E ei"
  unfolding split_sum_def by (simp add: splits_j_eq Let_def)

lemma split_sum_nonneg: "0 \<le> split_sum E g"
  unfolding split_sum_def Let_def by (rule sum_list_nonneg) auto

lemma choose_loop_cases:
  "(choose_loop E rest mx nx = nx \<and> (\<forall>e \<in> set rest. split_sum E e \<le> mx))
   \<or> (\<exists>pre g post. rest = pre @ g # post \<and> choose_loop E rest mx nx = Some g
         \<and> mx < split_sum E g
         \<and> (\<forall>e \<in> set pre. split_sum E e < split_sum E g)
         \<and> (\<forall>e \<in> set post. split_sum E e \<le> split_sum E g))"
proof (induction rest arbitrary: mx nx)
  case Nil
  then show ?case by simp
next
  case (Cons e rest)
  show ?case
  proof (cases "mx < split_sum E e")
    case True
    then have cl: "choose_loop E (e # rest) mx nx = choose_loop E rest (split_sum E e) (Some e)"
      by (simp add: Let_def splits_j_split_sum)
    from Cons.IH [of "split_sum E e" "Some e"] show ?thesis
    proof (elim disjE exE conjE)
      assume "choose_loop E rest (split_sum E e) (Some e) = Some e"
        and "\<forall>x \<in> set rest. split_sum E x \<le> split_sum E e"
      then have "e # rest = [] @ e # rest \<and> choose_loop E (e # rest) mx nx = Some e
          \<and> mx < split_sum E e \<and> (\<forall>x \<in> set []. split_sum E x < split_sum E e)
          \<and> (\<forall>x \<in> set rest. split_sum E x \<le> split_sum E e)"
        using True cl by simp
      then show ?thesis by blast
    next
      fix pre g post
      assume "rest = pre @ g # post" "choose_loop E rest (split_sum E e) (Some e) = Some g"
        "split_sum E e < split_sum E g" "\<forall>x \<in> set pre. split_sum E x < split_sum E g"
        "\<forall>x \<in> set post. split_sum E x \<le> split_sum E g"
      then have "e # rest = (e # pre) @ g # post \<and> choose_loop E (e # rest) mx nx = Some g
          \<and> mx < split_sum E g \<and> (\<forall>x \<in> set (e # pre). split_sum E x < split_sum E g)
          \<and> (\<forall>x \<in> set post. split_sum E x \<le> split_sum E g)"
        using True cl by simp
      then show ?thesis by blast
    qed
  next
    case False
    then have cl: "choose_loop E (e # rest) mx nx = choose_loop E rest mx nx"
      by (simp add: Let_def splits_j_split_sum)
    from Cons.IH [of mx nx] show ?thesis
    proof (elim disjE exE conjE)
      assume "choose_loop E rest mx nx = nx" and "\<forall>x \<in> set rest. split_sum E x \<le> mx"
      then show ?thesis
        using False cl by simp
    next
      fix pre g post
      assume "rest = pre @ g # post" "choose_loop E rest mx nx = Some g"
        "mx < split_sum E g" "\<forall>x \<in> set pre. split_sum E x < split_sum E g"
        "\<forall>x \<in> set post. split_sum E x \<le> split_sum E g"
      then have "e # rest = (e # pre) @ g # post \<and> choose_loop E (e # rest) mx nx = Some g
          \<and> mx < split_sum E g \<and> (\<forall>x \<in> set (e # pre). split_sum E x < split_sum E g)
          \<and> (\<forall>x \<in> set post. split_sum E x \<le> split_sum E g)"
        using False cl by simp
      then show ?thesis by blast
    qed
  qed
qed

text \<open>
  Claim C7. For a non-empty eligible set, \<open>chooseNextGuess\<close> returns a member whose
  split sum is maximal; among the members with the maximal split sum it is the first in
  the order of the set (every member before it has a strictly smaller split sum); a set
  of one member yields that member.
\<close>

theorem chooseNextGuess_first_maximum:
  assumes "eligible_codes \<noteq> []"
  shows "\<exists>pre g post. eligible_codes = pre @ g # post
           \<and> chooseNextGuess eligible_codes = Inr (js_split g)
           \<and> (\<forall>e \<in> set eligible_codes. split_sum eligible_codes e \<le> split_sum eligible_codes g)
           \<and> (\<forall>e \<in> set pre. split_sum eligible_codes e < split_sum eligible_codes g)
           \<and> (length eligible_codes = 1 \<longrightarrow> eligible_codes = [g])"
proof -
  obtain e0 tl where E: "eligible_codes = e0 # tl"
    using assms by (cases eligible_codes) auto
  let ?E = eligible_codes
  have c: "chooseNextGuess ?E =
      (case choose_loop ?E ?E 0 (Some e0) of None \<Rightarrow> Inl TypeError | Some g \<Rightarrow> Inr (js_split g))"
    unfolding chooseNextGuess_def by (simp add: E)
  from choose_loop_cases [of ?E ?E 0 "Some e0"] show ?thesis
  proof (elim disjE exE conjE)
    assume r: "choose_loop ?E ?E 0 (Some e0) = Some e0" and le: "\<forall>e \<in> set ?E. split_sum ?E e \<le> 0"
    have "\<forall>e \<in> set ?E. split_sum ?E e \<le> split_sum ?E e0"
      using le split_sum_nonneg [of ?E e0] by force
    then have "?E = [] @ e0 # tl \<and> chooseNextGuess ?E = Inr (js_split e0)
        \<and> (\<forall>e \<in> set ?E. split_sum ?E e \<le> split_sum ?E e0)
        \<and> (\<forall>e \<in> set []. split_sum ?E e < split_sum ?E e0)
        \<and> (length ?E = 1 \<longrightarrow> ?E = [e0])"
      using c r E by simp
    then show ?thesis by blast
  next
    fix pre g post
    assume d: "?E = pre @ g # post" and r: "choose_loop ?E ?E 0 (Some e0) = Some g"
      and lt: "\<forall>x \<in> set pre. split_sum ?E x < split_sum ?E g"
      and le: "\<forall>x \<in> set post. split_sum ?E x \<le> split_sum ?E g"
    have all: "\<forall>e \<in> set ?E. split_sum ?E e \<le> split_sum ?E g"
    proof
      fix e assume "e \<in> set ?E"
      then have "e \<in> set pre \<or> e = g \<or> e \<in> set post"
        by (subst (asm) d) auto
      then show "split_sum ?E e \<le> split_sum ?E g"
        using lt le by force
    qed
    have one: "length ?E = 1 \<longrightarrow> ?E = [g]"
      by (subst (1 2) d) (cases pre; simp)
    have "chooseNextGuess ?E = Inr (js_split g)"
      using c r by simp
    then show ?thesis
      using d all lt one by blast
  qed
qed

text \<open>
  In the example the split sums are 5, 6, 6 and 5: the second and third members tie, and
  the second is returned.
\<close>

lemma four_run: "chooseNextGuess eligible_four = Inr (js_split ''ABCD'')"
  by code_simp

theorem chooseNextGuess_first_maximum_witness:
  "eligible_four \<noteq> []
   \<and> chooseNextGuess eligible_four = Inr (js_split ''ABCD'')
   \<and> (\<exists>pre g post. eligible_four = pre @ g # post
           \<and> chooseNextGuess eligible_four = Inr (js_split g)
           \<and> (\<forall>e \<in> set eligible_four. split_sum eligible_four e \<le> split_sum eligible_four g)
           \<and> (\<forall>e \<in> set pre. split_sum eligible_four e < split_sum eligible_four g)
           \<and> (length eligible_four = 1 \<longrightarrow> eligible_four = [g]))"
proof -
  have ne: "eligible_four \<noteq> []"
    by (simp add: eligible_four_def)
  show ?thesis
    using ne four_run chooseNextGuess_first_maximum [OF ne] by blast
qed

section \<open>Facts about the code space and the underscore functions\<close>

subsection \<open>The code space\<close>

lemma fold_append_concat: "fold (\<lambda>x r. r @ f x) xs res = res @ concat (map f xs)"
  by (induction xs arbitrary: res) simp_all

lemma variations_eq:
  "variations symbols depth variation results =
     results @ map (\<lambda>w. js_join (variation @ w)) (product_lists (replicate depth symbols))"
proof (induction depth arbitrary: variation results)
  case 0
  then show ?case by simp
next
  case (Suc depth)
  let ?P = "product_lists (replicate depth symbols)"
  have "(\<lambda>sym res. variations symbols depth (variation @ [sym]) res)
          = (\<lambda>sym res. res @ map (\<lambda>w. js_join (variation @ sym # w)) ?P)"
    by (intro ext) (simp add: Suc.IH)
  then have "variations symbols (Suc depth) variation results
          = results @ concat (map (\<lambda>sym. map (\<lambda>w. js_join (variation @ sym # w)) ?P) symbols)"
    by (simp add: fold_append_concat)
  also have "concat (map (\<lambda>sym. map (\<lambda>w. js_join (variation @ sym # w)) ?P) symbols)
          = map (\<lambda>w. js_join (variation @ w)) (product_lists (replicate (Suc depth) symbols))"
    by (simp add: map_concat comp_def)
  finally show ?case .
qed

lemma allCodes_eq: "allCodes = map js_join (product_lists (replicate NUM_FIELDS SYMBOLS))"
  unfolding allCodes_def variations_eq by simp

lemma js_split_join:
  assumes "\<forall>v \<in> set w. v \<noteq> None"
  shows "js_split (js_join w) = w"
  using assms unfolding js_split_def js_join_def
  by (induction w) (auto split: option.splits)

lemma js_join_split: "js_join (js_split s) = s"
  unfolding js_split_def js_join_def by (induction s) simp_all

lemma inj_js_split: "inj js_split"
  by (rule inj_on_inverseI [where g = js_join]) (rule js_join_split)

lemma product_lists_elems:
  assumes "w \<in> set (product_lists (replicate n xs))"
  shows "set w \<subseteq> set xs"
  using assms
proof (induction n arbitrary: w)
  case 0
  then show ?case by simp
next
  case (Suc n)
  from Suc.prems obtain x w' where "w = x # w'" and "x \<in> set xs"
    and "w' \<in> set (product_lists (replicate n xs))"
    by auto
  then show ?case
    using Suc.IH [of w'] by auto
qed

lemma distinct_allCodes: "distinct allCodes"
proof -
  let ?P = "product_lists (replicate NUM_FIELDS SYMBOLS)"
  have sym: "distinct SYMBOLS"
    by (simp add: SYMBOLS_def js_split_def)
  have d: "distinct ?P"
    by (rule distinct_product_lists) (simp add: sym)
  have "js_split (js_join w) = w" if "w \<in> set ?P" for w
  proof (rule js_split_join)
    have "set w \<subseteq> set SYMBOLS"
      using that by (rule product_lists_elems)
    then show "\<forall>v \<in> set w. v \<noteq> None"
      by (auto simp: SYMBOLS_def js_split_def)
  qed
  then have "inj_on js_join (set ?P)"
    by (rule inj_on_inverseI)
  then show ?thesis
    unfolding allCodes_eq using d by (simp add: distinct_map)
qed

lemma length_allCodes: "length allCodes = 1296"
  unfolding allCodes_eq
  by (simp add: length_product_lists NUM_FIELDS_def SYMBOLS_def js_split_def eval_nat_numeral)

subsection \<open>uniq, union and difference\<close>

lemma set_uniq_into: "set (uniq_into res xs) = set res \<union> set xs"
  by (induction xs arbitrary: res) auto

lemma distinct_uniq_into: "distinct res \<Longrightarrow> distinct (uniq_into res xs)"
  by (induction xs arbitrary: res) auto

lemma length_uniq_into: "length (uniq_into res xs) \<le> length res + length xs"
proof (induction xs arbitrary: res)
  case Nil
  then show ?case by simp
next
  case (Cons v vs)
  show ?case
    using Cons.IH [of res] Cons.IH [of "res @ [v]"] by simp
qed

lemma uniq_into_distinct: "distinct (res @ xs) \<Longrightarrow> uniq_into res xs = res @ xs"
  by (induction xs arbitrary: res) auto

lemma distinct_uniq: "distinct (uniq xs)"
  unfolding uniq_def by (rule distinct_uniq_into) simp

lemma set_uniq: "set (uniq xs) = set xs"
  unfolding uniq_def by (simp add: set_uniq_into)

lemma length_uniq: "length (uniq xs) \<le> length xs"
  unfolding uniq_def using length_uniq_into [of "[]" xs] by simp

lemma union_us_distinct: "distinct (a @ b) \<Longrightarrow> union_us a b = a @ b"
  unfolding union_us_def uniq_def using uniq_into_distinct [of "[]" "a @ b"] by simp

lemma distinct_difference: "distinct a \<Longrightarrow> distinct (difference a others)"
  unfolding difference_def by simp

lemma set_difference: "set (difference a others) = set a - set others"
  unfolding difference_def by auto

lemma length_difference_ge:
  assumes "distinct a"
  shows "length a \<le> length (difference a others) + length others"
proof -
  let ?in = "filter (\<lambda>e. \<not> e \<notin> set others) a"
  have "distinct ?in"
    using assms by simp
  then have "length ?in = card (set ?in)"
    by (rule distinct_card [symmetric])
  also have "\<dots> \<le> card (set others)"
    by (rule card_mono) auto
  also have "\<dots> \<le> length others"
    by (rule card_length)
  finally have "length ?in \<le> length others" .
  moreover have "length (difference a others) + length ?in = length a"
    unfolding difference_def by (rule sum_length_filter_compl)
  ultimately show ?thesis
    by simp
qed

subsection \<open>Sampling\<close>

lemma sample_loop_mset:
  "mset (fst (sample_loop s i n rng)) = mset s"
proof (induction s i n rng rule: sample_loop.induct)
  case (1 s i n rng)
  show ?case
  proof (cases "i < n")
    case False
    then show ?thesis
      by (subst sample_loop.simps) simp
  next
    case True
    obtain rand rng' where u: "us_random (int i) (int (length s) - 1) rng = (rand, rng')"
      by (cases "us_random (int i) (int (length s) - 1) rng")
    let ?s' = "if int i \<le> rand \<and> rand < int (length s)
               then s[i := s ! nat rand, nat rand := s ! i] else s"
    have m: "mset ?s' = mset s"
    proof (cases "int i \<le> rand \<and> rand < int (length s)")
      case True
      then have "i < length s" and "nat rand < length s"
        by auto
      then show ?thesis
        using True mset_swap [of "nat rand" s i] by simp
    next
      case False
      then show ?thesis by auto
    qed
    have "sample_loop s i n rng = sample_loop ?s' (i + 1) n rng'"
      using True u by (subst sample_loop.simps) simp
    then show ?thesis
      using "1.IH" [OF True u [symmetric] refl refl] m by simp
  qed
qed

lemma sample_loop_length: "length (fst (sample_loop s i n rng)) = length s"
  using sample_loop_mset [of s i n rng] by (metis size_mset)

lemma sample_n_length:
  "length (fst (sample_n obj n rng)) = nat (max (min n (int (length obj))) 0)"
proof -
  let ?n = "nat (max (min n (int (length obj))) 0)"
  have "fst (sample_n obj n rng) = take ?n (fst (sample_loop obj 0 ?n rng))"
    unfolding sample_n_def by (simp add: Let_def split: prod.splits)
  then show ?thesis
    using sample_loop_length [of obj 0 ?n rng] by simp
qed

lemma sample_n_set: "set (fst (sample_n obj n rng)) \<subseteq> set obj"
proof -
  let ?n = "nat (max (min n (int (length obj))) 0)"
  have "fst (sample_n obj n rng) = take ?n (fst (sample_loop obj 0 ?n rng))"
    unfolding sample_n_def by (simp add: Let_def split: prod.splits)
  moreover have "set (fst (sample_loop obj 0 ?n rng)) = set obj"
    using sample_loop_mset [of obj 0 ?n rng] by (rule mset_eq_setD)
  ultimately show ?thesis
    using set_take_subset [of ?n "fst (sample_loop obj 0 ?n rng)"] by simp
qed

lemma sample_n_distinct: "distinct obj \<Longrightarrow> distinct (fst (sample_n obj n rng))"
proof -
  assume d: "distinct obj"
  let ?n = "nat (max (min n (int (length obj))) 0)"
  have "fst (sample_n obj n rng) = take ?n (fst (sample_loop obj 0 ?n rng))"
    unfolding sample_n_def by (simp add: Let_def split: prod.splits)
  moreover have "distinct (fst (sample_loop obj 0 ?n rng))"
    using sample_loop_mset [of obj 0 ?n rng] d by (metis mset_eq_imp_distinct_iff)
  ultimately show ?thesis
    by simp
qed

section \<open>The permutation operator\<close>

text \<open>On a code of length \<open>NUM_FIELDS\<close>, \<open>permutate\<close> exchanges the entries at two distinct positions.\<close>

lemma permutate_swaps:
  assumes "length (code c) = NUM_FIELDS"
  shows "\<exists>p0 p1. p0 < NUM_FIELDS \<and> p1 < NUM_FIELDS \<and> p0 \<noteq> p1
           \<and> code (fst (permutate c rng)) = (code c)[p0 := code c ! p1, p1 := code c ! p0]"
proof -
  let ?tp = "fst (sample_n [0..<NUM_FIELDS] 2 rng)"
  have l: "length ?tp = 2"
    by (simp add: sample_n_length NUM_FIELDS_def)
  have d: "distinct ?tp"
    by (rule sample_n_distinct) simp
  have s: "set ?tp \<subseteq> {0..<NUM_FIELDS}"
    using sample_n_set [of "[0..<NUM_FIELDS]" 2 rng] by simp
  obtain p0 p1 where tp: "?tp = [p0, p1]"
    using l by (cases ?tp; cases "tl ?tp") (auto simp: Suc_length_conv)
  have p: "p0 < NUM_FIELDS \<and> p1 < NUM_FIELDS \<and> p0 \<noteq> p1"
    using d s unfolding tp by simp
  have "code (fst (permutate c rng)) = (code c)[p0 := code c ! p1, p1 := code c ! p0]"
    unfolding permutate_def using tp p assms
    by (simp add: Let_def case_prod_beta js_get_def js_set_def)
  then show ?thesis
    using p by blast
qed

text \<open>
  Claim C4, as amended. The probability with which a crossover child undergoes the
  permutation operator is 0.1: in the loop over the children, after the test and the
  mutation and before the test and the inversion, the child is permuted exactly when
  the value drawn for the test is at most the constant \<open>PERMUTATION_PROBABILITY\<close>,
  which is the double nearest to \<open>1 / 10\<close>.
\<close>

theorem permutation_probability_is_tenth:
  "apply_operators child rng =
     (let (c1, rng2) = mutation_stage child rng
      in inversion_stage
           (if rng2 0 \<le> 3602879701896397 / 36028797018963968
            then permutate c1 (\<lambda>k. rng2 (Suc k))
            else (c1, \<lambda>k. rng2 (Suc k))))
   \<and> PERMUTATION_PROBABILITY = 3602879701896397 / 36028797018963968
   \<and> \<bar>PERMUTATION_PROBABILITY - 1 / 10\<bar> < 1 / 10 ^ 17"
proof -
  have "apply_operators child rng =
     (let (c1, rng2) = mutation_stage child rng
      in inversion_stage
           (if rng2 0 \<le> 3602879701896397 / 36028797018963968
            then permutate c1 (\<lambda>k. rng2 (Suc k))
            else (c1, \<lambda>k. rng2 (Suc k))))"
    unfolding apply_operators_def mutation_stage_def inversion_stage_def
    by (simp add: shouldDo_def Math_random_def PERMUTATION_PROBABILITY_def Let_def case_prod_beta)
  moreover have "\<bar>PERMUTATION_PROBABILITY - 1 / 10\<bar> < 1 / 10 ^ 17"
    unfolding PERMUTATION_PROBABILITY_def by simp
  ultimately show ?thesis
    by (simp add: PERMUTATION_PROBABILITY_def)
qed

lemma c4_run: "code (fst (apply_operators child_abcd rng_c4)) = js_split ''DBCA''"
  by code_simp

text \<open>
  The claim as stated gives 0.05. The constant is neither 0.05 nor the double of that
  literal, and a child is permuted on a draw above 0.05: with the draws 7/8 (no
  mutation), 9/128, 7/8 and 7/8 (the two positions, 3 and 0) and 7/8 (no inversion), the
  child \<open>ABCD\<close> becomes \<open>DBCA\<close>.
\<close>

theorem permutation_probability_counterexample:
  "PERMUTATION_PROBABILITY \<noteq> 5 / 100
   \<and> PERMUTATION_PROBABILITY \<noteq> INVERSION_PROBABILITY
   \<and> rng_c4 1 = 9 / 128 \<and> (5 / 100 :: real) < 9 / 128
   \<and> code (fst (apply_operators child_abcd rng_c4)) = js_split ''DBCA''"
  using c4_run
  by (simp add: PERMUTATION_PROBABILITY_def INVERSION_PROBABILITY_def rng_c4_def)

section \<open>One generation\<close>

lemma code_calculateFitness: "code (calculateFitness m prev) = code m"
  unfolding calculateFitness_def by (simp add: Let_def split: prod.splits)

lemma evaluate_members_Cons:
  "evaluate_members prev (m # ms) e =
     (calculateFitness m prev
        # fst (evaluate_members prev ms
                 (if eligible (calculateFitness m prev)
                     \<and> getCodeString (calculateFitness m prev) \<notin> set e
                  then e @ [getCodeString (calculateFitness m prev)] else e)),
      snd (evaluate_members prev ms
             (if eligible (calculateFitness m prev)
                 \<and> getCodeString (calculateFitness m prev) \<notin> set e
              then e @ [getCodeString (calculateFitness m prev)] else e)))"
  by (simp add: Let_def split: prod.splits)

lemma evaluate_members_codes:
  "map code (fst (evaluate_members prev ms e)) = map code ms"
proof (induction ms arbitrary: e)
  case Nil
  then show ?case by simp
next
  case (Cons m ms)
  show ?case
    unfolding evaluate_members_Cons by (simp add: Cons.IH code_calculateFitness)
qed

lemma evaluate_members_length: "length (fst (evaluate_members prev ms e)) = length ms"
  using evaluate_members_codes [of prev ms e] by (metis length_map)

lemma evaluate_members_eiSet:
  "distinct e \<Longrightarrow>
     distinct (snd (evaluate_members prev ms e))
     \<and> length (snd (evaluate_members prev ms e)) \<le> length e + length ms
     \<and> set e \<subseteq> set (snd (evaluate_members prev ms e))"
proof (induction ms arbitrary: e)
  case Nil
  then show ?case by simp
next
  case (Cons m ms)
  define e' where "e' = (if eligible (calculateFitness m prev)
                 \<and> getCodeString (calculateFitness m prev) \<notin> set e
              then e @ [getCodeString (calculateFitness m prev)] else e)"
  have d: "distinct e'"
    using Cons.prems unfolding e'_def by simp
  have l: "length e' \<le> length e + 1"
    unfolding e'_def by simp
  have sub: "set e \<subseteq> set e'"
    unfolding e'_def by auto
  have s: "snd (evaluate_members prev (m # ms) e) = snd (evaluate_members prev ms e')"
    unfolding evaluate_members_Cons e'_def by simp
  note IH = Cons.IH [OF d]
  have "length (snd (evaluate_members prev ms e')) \<le> length e + length (m # ms)"
    using IH l by simp
  moreover have "set e \<subseteq> set (snd (evaluate_members prev ms e'))"
    using IH sub by blast
  ultimately show ?case
    unfolding s using IH by blast
qed

lemma generation_body_Scheduled:
  assumes "2 \<le> length (members this)"
  obtains child0 child1 rng3 where
    "generation_body this prev e g rng =
       Inr (Scheduled
         (this\<lparr>members := fst (refill (child0 # child1
                  # drop 2 (sort_key fitness (fst (evaluate_members prev (members this) e))))
                  (pop_size this) rng3)\<rparr>)
         (snd (evaluate_members prev (members this) e)) (g - 1)
         (snd (refill (child0 # child1
                  # drop 2 (sort_key fitness (fst (evaluate_members prev (members this) e))))
                  (pop_size this) rng3)))"
proof -
  obtain ms e' where ev: "evaluate_members prev (members this) e = (ms, e')"
    by (cases "evaluate_members prev (members this) e")
  have len: "length ms = length (members this)"
    using evaluate_members_length [of prev "members this" e] ev by simp
  let ?sorted = "sort_key fitness ms"
  have l2: "\<not> length ?sorted < 2"
    using assms len by simp
  obtain c0 c1 rng1 where cr:
    "crossover (?sorted ! (length ?sorted - 1)) (?sorted ! (length ?sorted - 1 - 1)) rng = ((c0, c1), rng1)"
    by (metis surj_pair)
  obtain c0' rng2 where a0: "apply_operators c0 rng1 = (c0', rng2)"
    by (cases "apply_operators c0 rng1")
  obtain c1' rng3 where a1: "apply_operators c1 rng2 = (c1', rng3)"
    by (cases "apply_operators c1 rng2")
  have "generation_body this prev e g rng =
       Inr (Scheduled
         (this\<lparr>members := fst (refill (c0' # c1' # drop 2 ?sorted) (pop_size this) rng3)\<rparr>)
         e' (g - 1)
         (snd (refill (c0' # c1' # drop 2 ?sorted) (pop_size this) rng3)))"
    unfolding generation_body_def ev
    using l2 cr a0 a1 by (simp add: Population_sort_def Let_def split: prod.splits)
  then show ?thesis
    using that [of c0' c1' rng3] ev by simp
qed

lemma refill_codes:
  "map code (fst (refill ms n rng)) =
     map js_split
       (union_us (uniq (map (\<lambda>obj. js_join (code obj)) ms))
          (fst (sample_n (difference allCodes (uniq (map (\<lambda>obj. js_join (code obj)) ms)))
                 (n - int (length (uniq (map (\<lambda>obj. js_join (code obj)) ms)))) rng)))"
  unfolding refill_def by (simp add: Let_def Combination_new_def comp_def split: prod.splits)


lemma refill_length_general:
  "length (fst (refill ms n rng)) =
     length (uniq (map (\<lambda>obj. js_join (code obj)) ms))
     + nat (max (min (n - int (length (uniq (map (\<lambda>obj. js_join (code obj)) ms))))
                     (int (length (difference allCodes (uniq (map (\<lambda>obj. js_join (code obj)) ms)))))) 0)"
proof -
  let ?U = "uniq (map (\<lambda>obj. js_join (code obj)) ms)"
  let ?D = "difference allCodes ?U"
  let ?new = "fst (sample_n ?D (n - int (length ?U)) rng)"
  have "distinct ?new"
    by (rule sample_n_distinct) (rule distinct_difference, rule distinct_allCodes)
  moreover have "set ?new \<inter> set ?U = {}"
    using sample_n_set [of ?D "n - int (length ?U)" rng] by (auto simp: set_difference)
  ultimately have "distinct (?U @ ?new)"
    using distinct_uniq [of "map (\<lambda>obj. js_join (code obj)) ms"] by auto
  then have "union_us ?U ?new = ?U @ ?new"
    by (rule union_us_distinct)
  then have "length (map code (fst (refill ms n rng))) = length ?U + length ?new"
    unfolding refill_codes by simp
  then show ?thesis
    by (simp add: sample_n_length)
qed

lemma refill_length:
  assumes "int (length ms) \<le> n" and "n \<le> int (length allCodes)"
  shows "int (length (fst (refill ms n rng))) = n"
proof -
  let ?U = "uniq (map (\<lambda>obj. js_join (code obj)) ms)"
  have u: "length ?U \<le> length ms"
    using length_uniq [of "map (\<lambda>obj. js_join (code obj)) ms"] by simp
  have "length allCodes \<le> length (difference allCodes ?U) + length ?U"
    by (rule length_difference_ge) (rule distinct_allCodes)
  then show ?thesis
    unfolding refill_length_general using assms u by simp
qed

lemma generation_not_halting:
  assumes "\<not> ((maxGen \<le> 0 \<or> length eiSet = SET_SIZE) \<and> \<not> (length prevGuesses > 1 \<and> eiSet = []))"
  shows "generation this prevGuesses eiSet maxGen rng = generation_body this prevGuesses eiSet maxGen rng"
  using assms unfolding generation_def by (cases eiSet) auto

lemma length_pop_cdef: "length (members pop_cdef) = 150"
  unfolding pop_cdef_def by code_simp

lemma eiSet_pop_cdef: "length (snd (evaluate_members history_aabb (members pop_cdef) [])) = 150"
  by code_simp

lemma first_round_runs:
  "\<not> ((MAXGEN \<le> 0 \<or> length ([]::string list) = SET_SIZE) \<and> \<not> (length history_aabb > 1 \<and> ([]::string list) = []))"
  by (simp add: MAXGEN_def SET_SIZE_def)



section \<open>The size of the eligible set\<close>

text \<open>
  Claim C3, as amended. After a generation step the eligible set has no duplicates,
  contains the codes it had before, and has grown by at most the number of Population
  members; the configured maximum \<open>SET_SIZE\<close> is not an upper bound of its size.
\<close>

theorem eligible_set_growth:
  assumes "2 \<le> length (members this)"
    and "distinct eiSet"
    and "\<not> ((maxGen \<le> 0 \<or> length eiSet = SET_SIZE) \<and> \<not> (length prevGuesses > 1 \<and> eiSet = []))"
  shows "\<exists>this' eiSet' rng'.
           generation this prevGuesses eiSet maxGen rng = Inr (Scheduled this' eiSet' (maxGen - 1) rng')
           \<and> distinct eiSet'
           \<and> set eiSet \<subseteq> set eiSet'
           \<and> length eiSet' \<le> length eiSet + length (members this)"
proof -
  obtain this' rng' where
    "generation_body this prevGuesses eiSet maxGen rng =
       Inr (Scheduled this' (snd (evaluate_members prevGuesses (members this) eiSet)) (maxGen - 1) rng')"
    using generation_body_Scheduled [OF assms(1)] by metis
  then show ?thesis
    using evaluate_members_eiSet [OF assms(2), of prevGuesses "members this"]
      generation_not_halting [OF assms(3)]
    by auto
qed

theorem eligible_set_growth_witness:
  "2 \<le> length (members pop_cdef) \<and> distinct ([]::string list)
   \<and> (\<exists>this' eiSet' rng'.
           generation pop_cdef history_aabb [] MAXGEN rng_half
             = Inr (Scheduled this' eiSet' (MAXGEN - 1) rng')
           \<and> distinct eiSet'
           \<and> set [] \<subseteq> set eiSet'
           \<and> length eiSet' \<le> length ([]::string list) + length (members pop_cdef))"
proof -
  have h1: "2 \<le> length (members pop_cdef)"
    by (simp add: length_pop_cdef)
  have h2: "distinct ([]::string list)"
    by simp
  show ?thesis
    using h1 h2 eligible_set_growth [OF h1 h2 first_round_runs, where rng = rng_half]
    by blast
qed

text \<open>
  The claim as stated bounds the eligible set by \<open>SET_SIZE\<close> after every step. In the
  first round after the guess \<open>AABB\<close> scored \<open>(0, 0)\<close>, with an initial population of
  150 codes that avoid \<open>A\<close> and \<open>B\<close>, every member is eligible and is pushed: after the
  first step the eligible set has 150 codes.
\<close>

theorem eligible_set_cap_counterexample:
  "is_Scheduled (generation pop_cdef history_aabb [] MAXGEN rng_half)
   \<and> length (result_eiSet (generation pop_cdef history_aabb [] MAXGEN rng_half)) = 150
   \<and> SET_SIZE < length (result_eiSet (generation pop_cdef history_aabb [] MAXGEN rng_half))"
proof -
  have h1: "2 \<le> length (members pop_cdef)"
    by (simp add: length_pop_cdef)
  obtain this' rng' where
    "generation_body pop_cdef history_aabb [] MAXGEN rng_half =
       Inr (Scheduled this' (snd (evaluate_members history_aabb (members pop_cdef) [])) (MAXGEN - 1) rng')"
    using generation_body_Scheduled [OF h1] by metis
  then have "generation pop_cdef history_aabb [] MAXGEN rng_half =
       Inr (Scheduled this' (snd (evaluate_members history_aabb (members pop_cdef) [])) (MAXGEN - 1) rng')"
    using generation_not_halting [OF first_round_runs] by simp
  then show ?thesis
    by (simp add: eiSet_pop_cdef SET_SIZE_def)
qed

section \<open>The halting test of \<open>generation\<close>\<close>

lemma generation_body_not_Halted: "generation_body this prevGuesses eiSet maxGen rng \<noteq> Inr Halted"
  unfolding generation_body_def by (auto simp: Let_def split: prod.splits)

lemma generation_step_facts:
  assumes "2 \<le> length (members this)"
    and "int (length (members this)) \<le> pop_size this"
    and "pop_size this \<le> int (length allCodes)"
    and "\<not> ((maxGen \<le> 0 \<or> length eiSet = SET_SIZE) \<and> \<not> (length prevGuesses > 1 \<and> eiSet = []))"
  shows "is_Scheduled (generation this prevGuesses eiSet maxGen rng)
     \<and> int (length (members (result_population (generation this prevGuesses eiSet maxGen rng))))
         = pop_size this
     \<and> pop_size (result_population (generation this prevGuesses eiSet maxGen rng)) = pop_size this
     \<and> result_eiSet (generation this prevGuesses eiSet maxGen rng)
         = snd (evaluate_members prevGuesses (members this) eiSet)"
proof -
  let ?sorted = "sort_key fitness (fst (evaluate_members prevGuesses (members this) eiSet))"
  obtain child0 child1 rng3 where g:
    "generation_body this prevGuesses eiSet maxGen rng =
       Inr (Scheduled
         (this\<lparr>members := fst (refill (child0 # child1 # drop 2 ?sorted) (pop_size this) rng3)\<rparr>)
         (snd (evaluate_members prevGuesses (members this) eiSet)) (maxGen - 1)
         (snd (refill (child0 # child1 # drop 2 ?sorted) (pop_size this) rng3)))"
    using generation_body_Scheduled [OF assms(1)] by blast
  have "length (child0 # child1 # drop 2 ?sorted) = length (members this)"
    using assms(1) by (simp add: evaluate_members_length)
  then have "int (length (child0 # child1 # drop 2 ?sorted)) \<le> pop_size this"
    using assms(2) by simp
  then have "int (length (fst (refill (child0 # child1 # drop 2 ?sorted) (pop_size this) rng3)))
               = pop_size this"
    using assms(3) by (rule refill_length)
  then show ?thesis
    using g generation_not_halting [OF assms(4)] by simp
qed

lemma first_step_facts:
  "is_Scheduled first_step
   \<and> int (length (members (result_population first_step))) = 150
   \<and> pop_size (result_population first_step) = 150
   \<and> length (result_eiSet first_step) = 150"
proof -
  have s: "pop_size pop_cdef = 150"
    by (simp add: pop_cdef_def POPULATION_SIZE_def)
  have h1: "2 \<le> length (members pop_cdef)"
    by (simp add: length_pop_cdef)
  have h2: "int (length (members pop_cdef)) \<le> pop_size pop_cdef"
    by (simp add: length_pop_cdef s)
  have h3: "pop_size pop_cdef \<le> int (length allCodes)"
    by (simp add: length_allCodes s)
  show ?thesis
    unfolding first_step_def
    using generation_step_facts [OF h1 h2 h3 first_round_runs, where rng = rng_half]
    by (simp add: s eiSet_pop_cdef)
qed

text \<open>
  Claim C6, as amended. At a generation boundary at which the eligible set holds at most
  \<open>SET_SIZE\<close> codes, the loop halts, that is, the call invokes the callback and runs
  no generation, if and only if the remaining budget is at most 0 or the eligible set
  has reached its cap, and it is not the case that the history has more than one guess
  while the eligible set is empty. In every other case, so always in the override case
  whatever the budget, the call runs the body of a generation, which never invokes the
  callback.
\<close>

theorem generation_halts_iff:
  assumes "length eiSet \<le> SET_SIZE"
  shows "generation this prevGuesses eiSet maxGen rng =
     (if (maxGen \<le> 0 \<or> SET_SIZE \<le> length eiSet) \<and> \<not> (length prevGuesses > 1 \<and> eiSet = [])
      then Inr Halted
      else generation_body this prevGuesses eiSet maxGen rng)
   \<and> generation_body this prevGuesses eiSet maxGen rng \<noteq> Inr Halted"
proof -
  have "SET_SIZE \<le> length eiSet \<longleftrightarrow> length eiSet = SET_SIZE"
    using assms by auto
  then show ?thesis
    using generation_body_not_Halted [of this prevGuesses eiSet maxGen rng]
    unfolding generation_def by (cases eiSet) auto
qed

theorem generation_halts_iff_witness:
  "length ([]::string list) \<le> SET_SIZE
   \<and> generation pop_cdef history_aabb [] MAXGEN rng_half
       = generation_body pop_cdef history_aabb [] MAXGEN rng_half
   \<and> generation pop_cdef history_aabb [] 0 rng_half = Inr Halted"
proof -
  have h: "length ([]::string list) \<le> SET_SIZE"
    by simp
  show ?thesis
    using generation_halts_iff [OF h, of pop_cdef history_aabb MAXGEN rng_half]
      generation_halts_iff [OF h, of pop_cdef history_aabb 0 rng_half]
    by (simp add: MAXGEN_def SET_SIZE_def history_aabb_def)
qed

text \<open>
  The claim as stated has no bound on the eligible set. The code tests the cap with
  \<open>eiSet.length == SET_SIZE\<close>. After the first step of the example round the eligible
  set has 150 codes, so it has reached the cap of 110 and it is not empty, and 249
  generations remain; the second call does not halt, it runs a generation and schedules
  a third call.
\<close>

theorem generation_halts_counterexample:
  "SET_SIZE \<le> length (result_eiSet first_step)
   \<and> result_eiSet first_step \<noteq> []
   \<and> is_Scheduled second_step"
proof -
  note F = first_step_facts
  have h1: "2 \<le> length (members (result_population first_step))"
    using F by simp
  have h2: "int (length (members (result_population first_step))) \<le> pop_size (result_population first_step)"
    using F by simp
  have h3: "pop_size (result_population first_step) \<le> int (length allCodes)"
    using F by (simp add: length_allCodes)
  have h4: "\<not> ((MAXGEN - 1 \<le> 0 \<or> length (result_eiSet first_step) = SET_SIZE)
              \<and> \<not> (length history_aabb > 1 \<and> result_eiSet first_step = []))"
    using F by (simp add: MAXGEN_def SET_SIZE_def)
  have "is_Scheduled second_step"
    unfolding second_step_def
    using generation_step_facts [OF h1 h2 h3 h4] by simp
  moreover have "result_eiSet first_step \<noteq> []"
    using F by auto
  ultimately show ?thesis
    using F by (simp add: SET_SIZE_def)
qed

section \<open>The refill when the code space runs out\<close>

lemma refill_length_le:
  "length (fst (refill ms n rng))
     \<le> card (set (map (\<lambda>obj. js_join (code obj)) ms) \<union> set allCodes)"
proof -
  let ?U = "uniq (map (\<lambda>obj. js_join (code obj)) ms)"
  let ?D = "difference allCodes ?U"
  have dU: "distinct ?U"
    by (rule distinct_uniq)
  have dD: "distinct ?D"
    by (rule distinct_difference) (rule distinct_allCodes)
  have "set ?U \<inter> set ?D = {}"
    by (auto simp: set_difference)
  then have "distinct (?U @ ?D)"
    using dU dD by simp
  then have "length (?U @ ?D) = card (set (?U @ ?D))"
    by (rule distinct_card [symmetric])
  also have "set (?U @ ?D) = set (map (\<lambda>obj. js_join (code obj)) ms) \<union> set allCodes"
    by (auto simp: set_difference set_uniq)
  finally have "length ?U + length ?D = card (set (map (\<lambda>obj. js_join (code obj)) ms) \<union> set allCodes)"
    by simp
  then show ?thesis
    unfolding refill_length_general by simp
qed

lemma members_Population_new:
  "map (\<lambda>obj. js_join (code obj)) (members (fst (Population_new n rng))) = fst (sample_n allCodes n rng)"
  unfolding Population_new_def Population_init_def
  by (simp add: Let_def Combination_new_def comp_def js_join_split split: prod.splits)

lemma length_pop_big: "length (members pop_big) = 1296"
proof -
  have "length (map (\<lambda>obj. js_join (code obj)) (members pop_big)) = 1296"
    unfolding pop_big_def members_Population_new by (simp add: sample_n_length length_allCodes)
  then show ?thesis
    by simp
qed

lemma codes_pop_big: "set (map (\<lambda>obj. js_join (code obj)) (members pop_big)) \<subseteq> set allCodes"
  unfolding pop_big_def members_Population_new by (rule sample_n_set)

lemma spliced_codes:
  "set (map (\<lambda>obj. js_join (code obj))
          (drop 2 (sort_key fitness (fst (evaluate_members prev ms e)))))
     \<subseteq> set (map (\<lambda>obj. js_join (code obj)) ms)"
proof -
  let ?ev = "fst (evaluate_members prev ms e)"
  have "set (map code (drop 2 (sort_key fitness ?ev))) \<subseteq> set (map code (sort_key fitness ?ev))"
    using set_drop_subset [of 2 "sort_key fitness ?ev"] by auto
  also have "\<dots> = set (map code ?ev)"
    by simp
  also have "\<dots> = set (map code ms)"
    by (simp only: evaluate_members_codes)
  finally have "code ` set (drop 2 (sort_key fitness ?ev)) \<subseteq> code ` set ms"
    by simp
  then have "js_join ` code ` set (drop 2 (sort_key fitness ?ev)) \<subseteq> js_join ` code ` set ms"
    by (rule image_mono)
  then show ?thesis
    by (simp add: image_image)
qed

lemma sample_n_all:
  assumes "int (length obj) \<le> n"
  shows "mset (fst (sample_n obj n rng)) = mset obj"
proof -
  let ?n = "nat (max (min n (int (length obj))) 0)"
  have n: "?n = length obj"
    using assms by simp
  have "fst (sample_n obj n rng) = take ?n (fst (sample_loop obj 0 ?n rng))"
    unfolding sample_n_def by (simp add: Let_def split: prod.splits)
  then have "fst (sample_n obj n rng) = fst (sample_loop obj 0 ?n rng)"
    unfolding n by (simp add: sample_loop_length)
  then show ?thesis
    by (simp add: sample_loop_mset)
qed

text \<open>
  Claim C9, as amended. Whenever the refill requests more unused codes than remain in the
  code space, it completes without an error: the new Population is the deduplicated
  codes, in their order, followed by all the codes that remained, each once, in the
  order in which the sample returns them; so every code of the code space is a member,
  and the Population is smaller than the configured size. The refill has no failure of
  its own; a call of \<open>generation\<close> fails only with fewer than two members.
\<close>

theorem refill_underfills_without_error:
  assumes "int (length (difference allCodes (uniq (map (\<lambda>obj. js_join (code obj)) ms))))
             < n - int (length (uniq (map (\<lambda>obj. js_join (code obj)) ms)))"
  shows "(let U = uniq (map (\<lambda>obj. js_join (code obj)) ms);
              D = difference allCodes U;
              new = fst (sample_n D (n - int (length U)) rng)
          in fst (refill ms n rng) = map (\<lambda>e. Combination_new (js_split e)) (U @ new)
             \<and> mset new = mset D
             \<and> length (fst (refill ms n rng)) = length U + length D)
     \<and> int (length (fst (refill ms n rng))) < n
     \<and> set (map code (fst (refill ms n rng)))
         = js_split ` (set (map (\<lambda>obj. js_join (code obj)) ms) \<union> set allCodes)"
proof -
  let ?U = "uniq (map (\<lambda>obj. js_join (code obj)) ms)"
  let ?D = "difference allCodes ?U"
  let ?new = "fst (sample_n ?D (n - int (length ?U)) rng)"
  have len: "length (fst (refill ms n rng)) = length ?U + length ?D"
    unfolding refill_length_general using assms by simp
  have mn: "mset ?new = mset ?D"
    by (rule sample_n_all) (use assms in simp)
  then have sn: "set ?new = set ?D"
    by (rule mset_eq_setD)
  have "distinct ?new"
    by (rule sample_n_distinct) (rule distinct_difference, rule distinct_allCodes)
  moreover have "set ?new \<inter> set ?U = {}"
    unfolding sn by (auto simp: set_difference)
  ultimately have "distinct (?U @ ?new)"
    using distinct_uniq [of "map (\<lambda>obj. js_join (code obj)) ms"] by auto
  then have un: "union_us ?U ?new = ?U @ ?new"
    by (rule union_us_distinct)
  have ord: "fst (refill ms n rng) = map (\<lambda>e. Combination_new (js_split e)) (?U @ ?new)"
    unfolding refill_def by (simp add: Let_def case_prod_beta un)
  have "set (union_us ?U ?new) = set ?U \<union> set ?D"
    unfolding union_us_def by (simp add: set_uniq sn)
  also have "\<dots> = set (map (\<lambda>obj. js_join (code obj)) ms) \<union> set allCodes"
    by (auto simp: set_difference set_uniq)
  finally have st: "set (map code (fst (refill ms n rng)))
      = js_split ` (set (map (\<lambda>obj. js_join (code obj)) ms) \<union> set allCodes)"
    unfolding refill_codes by simp
  have lt: "int (length (fst (refill ms n rng))) < n"
    using len assms by simp
  show ?thesis
    unfolding Let_def using ord mn len lt st by blast
qed

theorem refill_underfills_without_error_witness:
  "int (length (difference allCodes (uniq (map (\<lambda>obj. js_join (code obj)) two_members))))
             < 1300 - int (length (uniq (map (\<lambda>obj. js_join (code obj)) two_members)))
   \<and> int (length (fst (refill two_members 1300 rng_half))) < 1300"
proof -
  let ?U = "uniq (map (\<lambda>obj. js_join (code obj)) two_members)"
  have "length ?U \<le> 2"
    using length_uniq [of "map (\<lambda>obj. js_join (code obj)) two_members"]
    by (simp add: two_members_def)
  moreover have "length (difference allCodes ?U) \<le> 1296"
    unfolding difference_def using length_filter_le [of "\<lambda>e. e \<notin> set ?U" allCodes]
    by (simp add: length_allCodes)
  ultimately have h: "int (length (difference allCodes ?U)) < 1300 - int (length ?U)"
    by simp
  show ?thesis
    using h refill_underfills_without_error [OF h, where rng = rng_half] by simp
qed

text \<open>
  The claim as stated demands an error. A population constructed with size 1300 holds the
  1296 codes; its first generation step completes, schedules the next call, and leaves
  fewer than 1300 members.
\<close>

theorem exhausted_code_space_counterexample:
  "is_Scheduled (generation pop_big history_aabb [] MAXGEN rng_half)
   \<and> pop_size pop_big = 1300
   \<and> int (length (result_members (generation pop_big history_aabb [] MAXGEN rng_half)))
       < pop_size pop_big"
proof -
  have h1: "2 \<le> length (members pop_big)"
    by (simp add: length_pop_big)
  let ?sorted = "sort_key fitness (fst (evaluate_members history_aabb (members pop_big) []))"
  obtain child0 child1 rng3 where g:
    "generation_body pop_big history_aabb [] MAXGEN rng_half =
       Inr (Scheduled
         (pop_big\<lparr>members := fst (refill (child0 # child1 # drop 2 ?sorted) (pop_size pop_big) rng3)\<rparr>)
         (snd (evaluate_members history_aabb (members pop_big) [])) (MAXGEN - 1)
         (snd (refill (child0 # child1 # drop 2 ?sorted) (pop_size pop_big) rng3)))"
    using generation_body_Scheduled [OF h1] by blast
  let ?j = "\<lambda>obj. js_join (code obj)"
  have "set (map ?j (drop 2 ?sorted)) \<subseteq> set allCodes"
    using spliced_codes [of history_aabb "members pop_big" "[]"] codes_pop_big by blast
  then have "set (map ?j (child0 # child1 # drop 2 ?sorted)) \<union> set allCodes
               \<subseteq> {?j child0, ?j child1} \<union> set allCodes"
    by auto
  then have "card (set (map ?j (child0 # child1 # drop 2 ?sorted)) \<union> set allCodes)
               \<le> card ({?j child0, ?j child1} \<union> set allCodes)"
    by (intro card_mono) auto
  also have "\<dots> \<le> card {?j child0, ?j child1} + card (set allCodes)"
    by (rule card_Un_le)
  also have "\<dots> \<le> 2 + length allCodes"
    by (intro add_mono card_length) (simp add: card_insert_if)
  finally have "length (fst (refill (child0 # child1 # drop 2 ?sorted) (pop_size pop_big) rng3)) \<le> 1298"
    using refill_length_le [of "child0 # child1 # drop 2 ?sorted" "pop_size pop_big" rng3]
    by (simp add: length_allCodes)
  moreover have s: "pop_size pop_big = 1300"
    unfolding pop_big_def Population_new_def Population_init_def
    by (simp add: Let_def split: prod.splits)
  ultimately show ?thesis
    using g generation_not_halting [OF first_round_runs, of pop_big rng_half] by simp
qed

section \<open>Every sample can be drawn\<close>

text \<open>
  For a list without duplicates, \<open>_.sample(list, n)\<close> can return any \<open>n\<close> distinct
  elements in any order: there are values of \<open>Math.random()\<close> that produce them. So
  the population of the example above is one that the constructor can build.
\<close>

lemma sample_loop_done: "sample_loop s n n rng = (s, rng)"
  by (subst sample_loop.simps) simp

lemma sample_loop_reach:
  assumes "distinct s" and "distinct ys" and "set ys \<subseteq> set (drop i s)" and "i + length ys = n"
  shows "\<exists>rng. valid_rng rng \<and> take n (fst (sample_loop s i n rng)) = take i s @ ys"
  using assms
proof (induction ys arbitrary: s i)
  case Nil
  then have "valid_rng (\<lambda>k. 0) \<and> take n (fst (sample_loop s i n (\<lambda>k. 0))) = take i s @ []"
    by (simp add: valid_rng_def sample_loop_done)
  then show ?case by blast
next
  case (Cons y ys)
  have lt: "i < n"
    using Cons.prems(4) by simp
  have "y \<in> set (drop i s)"
    using Cons.prems(3) by simp
  then obtain k where k: "k < length (drop i s)" and yk: "drop i s ! k = y"
    by (auto simp: in_set_conv_nth)
  define p where "p = i + k"
  have ip: "i \<le> p" and pl: "p < length s" and sp: "s ! p = y"
    using k yk unfolding p_def by auto
  have il: "i < length s"
    using ip pl by simp
  define s' where "s' = s[i := s ! p, p := s ! i]"
  have ms: "mset s' = mset s"
    unfolding s'_def using mset_swap [of p s i] il pl by simp
  have ds: "distinct s'"
    using ms Cons.prems(1) by (metis mset_eq_imp_distinct_iff)
  have ls: "length s' = length s"
    unfolding s'_def by simp
  have tk: "take i s' = take i s"
    unfolding s'_def using ip by simp
  have si: "s' ! i = y"
    unfolding s'_def using sp il pl by (cases "p = i") simp_all
  have dr: "drop i s' = y # drop (Suc i) s'"
    using Cons_nth_drop_Suc [of i s'] il ls si by simp
  have "mset (take i s') + mset (drop i s') = mset (take i s) + mset (drop i s)"
    using ms by (metis append_take_drop_id mset_append)
  then have "mset (drop i s') = mset (drop i s)"
    unfolding tk by simp
  then have sd: "set (drop i s') = set (drop i s)"
    by (rule mset_eq_setD)
  have "distinct (drop i s')"
    using ds by simp
  then have yn: "y \<notin> set (drop (Suc i) s')"
    unfolding dr by simp
  have sub: "set ys \<subseteq> set (drop (Suc i) s')"
  proof
    fix x assume x: "x \<in> set ys"
    then have "x \<in> set (drop i s')"
      using Cons.prems(3) sd by auto
    moreover have "x \<noteq> y"
      using x Cons.prems(2) by auto
    ultimately show "x \<in> set (drop (Suc i) s')"
      unfolding dr by simp
  qed
  have dy: "distinct ys"
    using Cons.prems(2) by simp
  have n': "Suc i + length ys = n"
    using Cons.prems(4) by simp
  obtain rng' where v': "valid_rng rng'"
    and r': "take n (fst (sample_loop s' (Suc i) n rng')) = take (Suc i) s' @ ys"
    using Cons.IH [OF ds dy sub n'] by blast
  define r where "r = real (p - i) / real (length s - i)"
  define rng where "rng = (\<lambda>k. case k of 0 \<Rightarrow> r | Suc k' \<Rightarrow> rng' k')"
  have r01: "0 \<le> r \<and> r < 1"
    unfolding r_def using ip pl il by simp
  have v: "valid_rng rng"
    unfolding valid_rng_def rng_def using r01 v' by (auto simp: valid_rng_def split: nat.splits)
  have "r * real_of_int (int (length s) - 1 - int i + 1) = real (p - i)"
    unfolding r_def using il by (simp add: of_nat_diff)
  then have fl: "\<lfloor>r * real_of_int (int (length s) - 1 - int i + 1)\<rfloor> = int (p - i)"
    by simp
  have us: "us_random (int i) (int (length s) - 1) rng = (int p, rng')"
    unfolding us_random_def Math_random_def using fl ip by (simp add: rng_def)
  have "sample_loop s i n rng = sample_loop s' (Suc i) n rng'"
    using lt us ip pl by (subst sample_loop.simps) (simp add: s'_def)
  then have "take n (fst (sample_loop s i n rng)) = take (Suc i) s' @ ys"
    using r' by simp
  also have "take (Suc i) s' = take i s @ [y]"
    using take_Suc_conv_app_nth [of i s'] il ls si tk by simp
  finally have "take n (fst (sample_loop s i n rng)) = take i s @ y # ys"
    by simp
  then show ?case
    using v by blast
qed

lemma sample_n_reach:
  assumes "distinct xs" and "distinct ys" and "set ys \<subseteq> set xs"
  shows "\<exists>rng. valid_rng rng \<and> fst (sample_n xs (int (length ys)) rng) = ys"
proof -
  have "length ys = card (set ys)"
    using assms(2) by (simp add: distinct_card)
  also have "\<dots> \<le> card (set xs)"
    using assms(3) by (intro card_mono) auto
  also have "\<dots> \<le> length xs"
    by (rule card_length)
  finally have le: "length ys \<le> length xs" .
  then have n: "nat (max (min (int (length ys)) (int (length xs))) 0) = length ys"
    by simp
  obtain rng where v: "valid_rng rng"
    and t: "take (length ys) (fst (sample_loop xs 0 (length ys) rng)) = take 0 xs @ ys"
    using sample_loop_reach [of xs ys 0 "length ys"] assms by auto
  have "fst (sample_n xs (int (length ys)) rng) = ys"
    unfolding sample_n_def n using t by (simp add: Let_def case_prod_beta)
  then show ?thesis
    using v by blast
qed

lemma in_allCodes_iff:
  "c \<in> set allCodes \<longleftrightarrow> length c = NUM_FIELDS \<and> set c \<subseteq> set ''ABCDEF''"
proof
  assume "c \<in> set allCodes"
  then obtain w where w: "w \<in> set (product_lists (replicate NUM_FIELDS SYMBOLS))" and c: "c = js_join w"
    unfolding allCodes_eq by auto
  have len: "length w = NUM_FIELDS"
    using in_set_product_lists_length [OF w] by simp
  have sub: "set w \<subseteq> set SYMBOLS"
    using w by (rule product_lists_elems)
  then have "\<forall>v \<in> set w. v \<noteq> None"
    by (auto simp: SYMBOLS_def js_split_def)
  then have "js_split c = w"
    unfolding c by (rule js_split_join)
  then have "map Some c = w"
    by (simp add: js_split_def)
  then show "length c = NUM_FIELDS \<and> set c \<subseteq> set ''ABCDEF''"
    using len sub unfolding SYMBOLS_def js_split_def by (metis length_map set_map subset_image_iff inj_Some inj_image_subset_iff)
next
  assume a: "length c = NUM_FIELDS \<and> set c \<subseteq> set ''ABCDEF''"
  have m: "c ! i \<in> set ''ABCDEF''" if "i < length c" for i
    using a that nth_mem by blast
  have "list_all2 (\<lambda>x ys. x \<in> set ys) (js_split c) (replicate NUM_FIELDS SYMBOLS)"
    unfolding list_all2_conv_all_nth
  proof (intro conjI allI impI)
    show "length (js_split c) = length (replicate NUM_FIELDS SYMBOLS)"
      using a by (simp add: js_split_def)
  next
    fix i assume "i < length (js_split c)"
    then have i: "i < length c"
      by (simp add: js_split_def)
    then have "js_split c ! i = Some (c ! i)"
      by (simp add: js_split_def)
    moreover have "replicate NUM_FIELDS SYMBOLS ! i = SYMBOLS"
      using i a by simp
    moreover have "Some (c ! i) \<in> set SYMBOLS"
      unfolding SYMBOLS_def js_split_def using m [OF i] by (simp only: set_map) (rule imageI)
    ultimately show "js_split c ! i \<in> set (replicate NUM_FIELDS SYMBOLS ! i)"
      by simp
  qed
  then have "js_split c \<in> set (product_lists (replicate NUM_FIELDS SYMBOLS))"
    by (simp add: product_lists_set)
  then have "js_join (js_split c) \<in> set allCodes"
    unfolding allCodes_eq by (simp only: set_map) (rule imageI)
  then show "c \<in> set allCodes"
    by (simp add: js_join_split)
qed

lemma pop_cdef_codes:
  "list_all (\<lambda>c. length c = NUM_FIELDS \<and> set c \<subseteq> set ''ABCDEF'')
     (take 150 (variations (js_split ''CDEF'') NUM_FIELDS [] []))
   \<and> distinct (take 150 (variations (js_split ''CDEF'') NUM_FIELDS [] []))
   \<and> length (take 150 (variations (js_split ''CDEF'') NUM_FIELDS [] [])) = 150"
  by code_simp

lemma pop_cdef_reachable:
  "\<exists>rng. valid_rng rng \<and> fst (Population_new POPULATION_SIZE rng) = pop_cdef"
proof -
  let ?ys = "take 150 (variations (js_split ''CDEF'') NUM_FIELDS [] [])"
  have "set ?ys \<subseteq> set allCodes"
    using pop_cdef_codes unfolding list_all_iff by (auto simp only: in_allCodes_iff)
  then obtain rng where v: "valid_rng rng" and s: "fst (sample_n allCodes (int (length ?ys)) rng) = ?ys"
    using sample_n_reach [OF distinct_allCodes, of ?ys] pop_cdef_codes by blast
  have "int (length ?ys) = POPULATION_SIZE"
    using pop_cdef_codes by (simp add: POPULATION_SIZE_def)
  then have "fst (sample_n allCodes POPULATION_SIZE rng) = ?ys"
    using s by simp
  then have "fst (Population_new POPULATION_SIZE rng) = pop_cdef"
    unfolding Population_new_def Population_init_def pop_cdef_def
    by (simp add: Let_def case_prod_beta)
  then show ?thesis
    using v by blast
qed

section \<open>The constructors and the examples of the specification\<close>

text \<open>
  A population constructed with a size of at most 1296 has that many members, with
  pairwise distinct codes; a new game has a secret of length \<open>NUM_FIELDS\<close>. These are
  the hypotheses of the theorems above on populations and codes.
\<close>

lemma Population_new_size:
  assumes "0 \<le> n" and "n \<le> int (length allCodes)"
  shows "pop_size (fst (Population_new n rng)) = n
     \<and> int (length (members (fst (Population_new n rng)))) = n
     \<and> distinct (map code (members (fst (Population_new n rng))))"
proof -
  let ?s = "fst (sample_n allCodes n rng)"
  have m: "members (fst (Population_new n rng)) = map (\<lambda>c. Combination_new (js_split c)) ?s"
    unfolding Population_new_def Population_init_def by (simp add: Let_def case_prod_beta)
  have "distinct ?s"
    by (rule sample_n_distinct) (rule distinct_allCodes)
  then have "distinct (map js_split ?s)"
    using inj_js_split by (simp add: distinct_map inj_on_def inj_def)
  then have "distinct (map code (members (fst (Population_new n rng))))"
    unfolding m by (simp add: comp_def Combination_new_def)
  moreover have "int (length (members (fst (Population_new n rng)))) = n"
    unfolding m using assms by (simp add: sample_n_length)
  moreover have "pop_size (fst (Population_new n rng)) = n"
    unfolding Population_new_def Population_init_def by (simp add: Let_def case_prod_beta)
  ultimately show ?thesis
    by simp
qed

lemma newGame_loop_length:
  assumes "length sol = i" and "i \<le> NUM_FIELDS"
  shows "length (fst (newGame_loop sol i rng)) = NUM_FIELDS"
  using assms
proof (induction "NUM_FIELDS - i" arbitrary: sol i rng)
  case 0
  then show ?case
    by (subst newGame_loop.simps) simp
next
  case (Suc d)
  then have lt: "i < NUM_FIELDS"
    by simp
  obtain r rng' where mr: "Math_random rng = (r, rng')"
    by (cases "Math_random rng")
  let ?sol = "js_set sol i (js_get SYMBOLS (nat \<lfloor>r * real NUM_SYMBOLS\<rfloor>))"
  have l: "length ?sol = i + 1"
    using Suc.prems(1) by (simp add: js_set_def)
  have d: "d = NUM_FIELDS - (i + 1)"
    using Suc.hyps(2) by simp
  have "newGame_loop sol i rng = newGame_loop ?sol (i + 1) rng'"
    using lt mr by (subst newGame_loop.simps) simp
  then show ?case
    using Suc.hyps(1) [OF d l] lt by simp
qed

lemma Mastermind_new_length: "length (solution (fst (Mastermind_new rng))) = NUM_FIELDS"
  unfolding Mastermind_new_def newGame_def
  using newGame_loop_length [of "[]" 0 rng] by (simp add: Let_def case_prod_beta)

lemma testCode_example: "testCode (js_split ''ABCD'') (js_split ''AEFB'') = (1, 1)"
  by code_simp

lemma testCode_self: "testCode a a = (int NUM_FIELDS, 0)"
proof -
  have "fst (testCode a a) = int NUM_FIELDS"
    unfolding testCode_exact_all by simp
  then show ?thesis
    using testCode_bound [of a a] by (simp add: prod_eq_iff)
qed

section \<open>The generations of a whole round\<close>

text \<open>
  The facts on one step hold along the run: when the run of a round ends, from a
  population of \<open>size\<close> members and a duplicate-free eligible set, it ends without an
  error, the population handed on has \<open>size\<close> members and the eligible set is
  duplicate-free and contains the codes it started with.
\<close>

lemma is_Scheduled_cases:
  assumes "is_Scheduled r"
  obtains this' eiSet' nextGen rng' where "r = Inr (Scheduled this' eiSet' nextGen rng')"
  using assms by (cases r rule: is_Scheduled.cases) auto

lemma generation_run_invariant:
  assumes "generation_run fuel this prevGuesses eiSet maxGen rng = Some res"
    and "2 \<le> length (members this)"
    and "int (length (members this)) = pop_size this"
    and "pop_size this \<le> int (length allCodes)"
    and "distinct eiSet"
  shows "\<exists>p' eiSet' rng'. res = Inr (p', eiSet', rng')
           \<and> int (length (members p')) = pop_size this \<and> pop_size p' = pop_size this
           \<and> distinct eiSet' \<and> set eiSet \<subseteq> set eiSet'"
  using assms
proof (induction fuel arbitrary: this eiSet maxGen rng)
  case 0
  then show ?case by simp
next
  case (Suc fuel)
  show ?case
  proof (cases "(maxGen \<le> 0 \<or> length eiSet = SET_SIZE) \<and> \<not> (length prevGuesses > 1 \<and> eiSet = [])")
    case True
    then have "generation this prevGuesses eiSet maxGen rng = Inr Halted"
      unfolding generation_def by (cases eiSet) auto
    then have "res = Inr (this, eiSet, rng)"
      using Suc.prems(1) by simp
    then show ?thesis
      using Suc.prems by simp
  next
    case False
    have le: "int (length (members this)) \<le> pop_size this"
      using Suc.prems(3) by simp
    note F = generation_step_facts [OF Suc.prems(2) le Suc.prems(4) False, of rng]
    then obtain this' eiSet' nextGen rng' where
      g: "generation this prevGuesses eiSet maxGen rng = Inr (Scheduled this' eiSet' nextGen rng')"
      using is_Scheduled_cases by blast
    have l': "int (length (members this')) = pop_size this'" and s': "pop_size this' = pop_size this"
      and e': "eiSet' = snd (evaluate_members prevGuesses (members this) eiSet)"
      using F unfolding g by simp_all
    have d': "distinct eiSet'" and sub: "set eiSet \<subseteq> set eiSet'"
      using evaluate_members_eiSet [OF Suc.prems(5), of prevGuesses "members this"] e' by simp_all
    have two: "2 \<le> length (members this')"
      using l' s' Suc.prems(2,3) by linarith
    have al: "pop_size this' \<le> int (length allCodes)"
      using s' Suc.prems(4) by simp
    have run: "generation_run fuel this' prevGuesses eiSet' nextGen rng' = Some res"
      using Suc.prems(1) g by simp
    from Suc.IH [OF run two l' al d'] obtain p'' e'' rng'' where
      "res = Inr (p'', e'', rng'')" "int (length (members p'')) = pop_size this'"
      "pop_size p'' = pop_size this'" "distinct e''" "set eiSet' \<subseteq> set e''"
      by blast
    then show ?thesis
      using s' sub by auto
  qed
qed

end
